theory Spec2Isabelle
  imports Main "HOL-Library.AList" "HOL-Library.Char_ord" "HOL-Library.List_Lexorder"
begin

section \<open>Data model of the witness search (internal/vulncheck/witness.go)\<close>

text \<open>
  The declarations of \<open>FuncNode\<close>, \<open>CallSite\<close>, \<open>Vuln\<close> and \<open>Result\<close> are not part
  of the files at hand; their fields are taken from the uses in witness.go and from the
  data model of the specification. Go pointers are compared by identity: a pointer to a
  function node is modelled by the node's record, whose \<open>FuncID\<close> plays the role of the
  address, and likewise \<open>VulnID\<close> for a pointer to a \<open>Vuln\<close>. Strings are compared
  bytewise, as Go does.
\<close>

text \<open>\<open>token.Position\<close>: file name, line and column (the offset is never read).\<close>

record Position =
  Filename :: string
  Line :: int
  Column :: int

text \<open>
  Modelled from the spec: a function of the call graph with its stable identifier, its
  display name (the value of \<open>f.String()\<close>) and its optional source position. The field
  \<open>f.CallSites\<close> lives in the store \<open>CallGraph\<close> of the result, since call graphs are
  cyclic.
\<close>

record FuncNode =
  FuncID :: nat
  FuncString :: string
  FuncPos :: "Position option"

text \<open>A call site: \<open>Parent\<close> is the calling function.\<close>

record CallSite =
  Parent :: FuncNode
  Name :: string
  RecvType :: string
  Pos :: "Position option"
  Resolved :: bool

text \<open>
  A vulnerability: \<open>OSV\<close> and \<open>ImportSink\<close> are pointers that the search only compares
  (\<open>None\<close> is nil); \<open>CallSink\<close> is the vulnerable function, nil when it is never called.
\<close>

record Vuln =
  VulnID :: nat
  OSV :: "nat option"
  CallSink :: "FuncNode option"
  ImportSink :: "nat option"

text \<open>
  The analysis result. \<open>CallGraph\<close> is the store that holds \<open>f.CallSites\<close> for every
  function \<open>f\<close>: the incoming call sites of \<open>f\<close>. A function without an entry has none.
\<close>

record Result =
  EntryFunctions :: "FuncNode list"
  Vulns :: "Vuln list"
  CallGraph :: "(FuncNode \<times> CallSite list) list"

definition CallSites :: "Result \<Rightarrow> FuncNode \<Rightarrow> CallSite list" where
  "CallSites res fn = (case map_of (CallGraph res) fn of None \<Rightarrow> [] | Some css \<Rightarrow> css)"

text \<open>\<open>StackEntry\<close> and \<open>CallStack\<close>: \<open>Call\<close> is nil on the last frame.\<close>

record StackEntry =
  Function :: FuncNode
  Call :: "CallSite option"

type_synonym CallStack = "StackEntry list"

text \<open>\<open>callChain\<close>: a linked chain of calls; \<open>cc_child\<close> is nil at the sink.\<close>

datatype callChain =
  CallChain (cc_call: "CallSite option") (cc_f: FuncNode) (cc_child: "callChain option")

section \<open>Comparators\<close>

text \<open>\<open>posLess\<close>: by line, then column, then file name.\<close>

definition posLess :: "Position \<Rightarrow> Position \<Rightarrow> bool" where
  "posLess p1 p2 =
     (if Line p1 < Line p2 then True
      else if Line p2 < Line p1 then False
      else if Column p1 < Column p2 then True
      else if Column p2 < Column p1 then False
      else Filename p1 < Filename p2)"

text \<open>
  \<open>csLess\<close>: the second argument may be nil. The format string \<open>"%v.%v"\<close> joins the two
  strings with a dot; the source passes \<open>cs2.Name\<close> on both sides.
\<close>

definition csLess :: "CallSite \<Rightarrow> CallSite option \<Rightarrow> bool" where
  "csLess cs1 cs2opt =
     (case cs2opt of
        None \<Rightarrow> True
      | Some cs2 \<Rightarrow>
          (case (Pos cs1, Pos cs2) of
             (Some p1, Some p2) \<Rightarrow>
               (if posLess p1 p2 then True
                else if posLess p2 p1 then False
                else RecvType cs1 @ ''.'' @ Name cs2 < RecvType cs2 @ ''.'' @ Name cs2)
           | _ \<Rightarrow>
               (if Pos cs2 = None then True
                else if Pos cs1 = None then False
                else RecvType cs1 @ ''.'' @ Name cs2 < RecvType cs2 @ ''.'' @ Name cs2)))"

text \<open>\<open>funcLess\<close>: by position, then by display name.\<close>

definition funcLess :: "FuncNode \<Rightarrow> FuncNode \<Rightarrow> bool" where
  "funcLess f1 f2 =
     (case (FuncPos f1, FuncPos f2) of
        (Some p1, Some p2) \<Rightarrow>
          (if posLess p1 p2 then True
           else if posLess p2 p1 then False
           else FuncString f1 < FuncString f2)
      | _ \<Rightarrow>
          (if FuncPos f2 = None then True
           else if FuncPos f1 = None then False
           else FuncString f1 < FuncString f2))"

section \<open>Call stacks and their weight\<close>

text \<open>\<open>callChain.CallStack\<close>: the frames of a chain, outermost first; nil gives nil.\<close>

fun CallStack :: "callChain option \<Rightarrow> CallStack" where
  "CallStack None = []"
| "CallStack (Some (CallChain cl fn ch)) = \<lparr>Function = fn, Call = cl\<rparr> # CallStack ch"

text \<open>\<open>weight\<close>: the number of frames whose call site is present and unresolved.\<close>

definition weight :: "CallStack \<Rightarrow> nat" where
  "weight stack =
     foldl (\<lambda>w e. case Call e of None \<Rightarrow> w | Some cs \<Rightarrow> if \<not> Resolved cs then w + 1 else w)
       0 stack"

section \<open>Sorting\<close>

text \<open>
  \<open>sort.SliceStable\<close> of the Go library, as the insertion sort it runs: each element in
  turn is swapped towards the front while the comparator \<open>lt\<close> holds between it and its predecessor.
  \<open>insertBack lt x rp\<close> inserts \<open>x\<close> behind the sorted prefix whose reverse is \<open>rp\<close>
  and returns the reverse of the new prefix. Nothing is assumed of \<open>lt\<close>.
\<close>

fun insertBack :: "('a \<Rightarrow> 'a \<Rightarrow> bool) \<Rightarrow> 'a \<Rightarrow> 'a list \<Rightarrow> 'a list" where
  "insertBack lt x [] = [x]"
| "insertBack lt x (y # rp) = (if lt x y then y # insertBack lt x rp else x # y # rp)"

definition sliceStable :: "('a \<Rightarrow> 'a \<Rightarrow> bool) \<Rightarrow> 'a list \<Rightarrow> 'a list" where
  "sliceStable lt xs = rev (foldl (\<lambda>rp x. insertBack lt x rp) [] xs)"

section \<open>Choosing call sites\<close>

text \<open>
  Go leaves the iteration order of a map open. The order in which \<open>callsites\<close> ranges
  over \<open>minCs\<close> is a parameter of the model: a ranking of the keys, smaller ranks first.
  Every order of the (distinct) keys is the order of some ranking.
\<close>

type_synonym mapOrder = "FuncNode \<Rightarrow> nat"

text \<open>The first loop of \<open>callsites\<close>: the smallest call site of each non-visited caller.\<close>

fun minCsLoop ::
  "CallSite list \<Rightarrow> (FuncNode \<Rightarrow> bool) \<Rightarrow> (FuncNode \<times> CallSite) list \<Rightarrow> (FuncNode \<times> CallSite) list"
where
  "minCsLoop [] visited minCs = minCs"
| "minCsLoop (cs # sites) visited minCs =
     (if visited (Parent cs) then minCsLoop sites visited minCs
      else if csLess cs (map_of minCs (Parent cs))
        then minCsLoop sites visited (AList.update (Parent cs) cs minCs)
        else minCsLoop sites visited minCs)"

definition rangeMap :: "mapOrder \<Rightarrow> (FuncNode \<times> CallSite) list \<Rightarrow> (FuncNode \<times> CallSite) list" where
  "rangeMap rank m = sort_key (\<lambda>kv. rank (fst kv)) m"

text \<open>
  \<open>callsites\<close>: the callers are collected in map order, sorted with \<open>funcLess\<close>, and
  each is looked up in \<open>minCs\<close> again (every caller in \<open>fs\<close> is a key of \<open>minCs\<close>).
\<close>

definition callsites :: "mapOrder \<Rightarrow> CallSite list \<Rightarrow> (FuncNode \<Rightarrow> bool) \<Rightarrow> CallSite list" where
  "callsites rank sites visited =
     (let minCs = minCsLoop sites visited [];
          fs = map (\<lambda>kv. Parent (snd kv)) (rangeMap rank minCs);
          fs' = sliceStable funcLess fs
      in List.map_filter (map_of minCs) fs')"

section \<open>The search of one vulnerability\<close>

text \<open>
  The variables of the loop of \<open>callStack\<close>: the work list, the \<open>seen\<close> map, the
  candidate stacks and their depth.
\<close>

record search =
  queue :: "callChain list"
  seen :: "FuncNode \<Rightarrow> bool"
  candidates :: "CallStack list"
  candDepth :: nat

text \<open>The map \<open>entries\<close>: true on the entry functions of the result.\<close>

definition entriesOf :: "Result \<Rightarrow> FuncNode \<Rightarrow> bool" where
  "entriesOf res = foldl (\<lambda>m e. m(e := True)) (\<lambda>_. False) (EntryFunctions res)"

text \<open>
  The map \<open>skipSymbols\<close>: the call sinks of the other vulnerabilities with the same
  OSV entry and the same import sink.
\<close>

definition skipSymbolsOf :: "Vuln \<Rightarrow> Result \<Rightarrow> FuncNode \<Rightarrow> bool" where
  "skipSymbolsOf vuln res =
     foldl (\<lambda>m v. case CallSink v of
                     None \<Rightarrow> m
                   | Some snk \<Rightarrow>
                       if v \<noteq> vuln \<and> OSV v = OSV vuln \<and> ImportSink v = ImportSink vuln
                       then m(snk := True) else m)
       (\<lambda>_. False) (Vulns res)"

text \<open>
  The body of the inner loop, for one call site \<open>cs\<close> of the function of chain \<open>c\<close>:
  the chain of the caller is pushed unless the caller is a skipped symbol; when the caller
  is an entry function its stack is a candidate if it is the first or as long as the
  others, and otherwise the queue is cleared.
\<close>

definition expandSite ::
  "(FuncNode \<Rightarrow> bool) \<Rightarrow> (FuncNode \<Rightarrow> bool) \<Rightarrow> callChain \<Rightarrow> search \<Rightarrow> CallSite \<Rightarrow> search"
where
  "expandSite entries skipSymbols c s cs =
     (let nStack = CallChain (Some cs) (Parent cs) (Some c);
          s1 = (if \<not> skipSymbols (Parent cs) then s\<lparr>queue := queue s @ [nStack]\<rparr> else s)
      in if entries (Parent cs)
         then (let ns = CallStack (Some nStack)
               in if candidates s1 = [] \<or> length ns = candDepth s1
                  then s1\<lparr>candidates := candidates s1 @ [ns], candDepth := length ns\<rparr>
                  else s1\<lparr>queue := []\<rparr>)
         else s1)"

text \<open>
  One iteration of the outer loop: the front chain is removed; a function seen before is
  passed over, any other is marked and its call sites are expanded in turn. \<open>rank\<close> gives,
  for the function expanded, the order in which the map \<open>minCs\<close> is ranged over.
\<close>

definition step ::
  "Result \<Rightarrow> (FuncNode \<Rightarrow> mapOrder) \<Rightarrow> (FuncNode \<Rightarrow> bool) \<Rightarrow> (FuncNode \<Rightarrow> bool) \<Rightarrow> search \<Rightarrow> search"
where
  "step res rank entries skipSymbols s =
     (case queue s of
        [] \<Rightarrow> s
      | c # rest \<Rightarrow>
          (let s0 = s\<lparr>queue := rest\<rparr>; fn = cc_f c
           in if seen s0 fn then s0
              else (let s1 = s0\<lparr>seen := (seen s0)(fn := True)\<rparr>
                    in foldl (expandSite entries skipSymbols c) s1
                         (callsites (rank fn) (CallSites res fn) (seen s1)))))"

text \<open>
  The measure of the loop: the functions of the call graph and of the queue that are not
  seen yet, then the length of the queue.
\<close>

definition callers :: "Result \<Rightarrow> FuncNode set" where
  "callers res = (\<Union>e \<in> set (CallGraph res). Parent ` set (snd e))"

definition unseen :: "Result \<Rightarrow> search \<Rightarrow> nat" where
  "unseen res s = card ((callers res \<union> cc_f ` set (queue s)) - {x. seen s x})"

section \<open>Termination of the search\<close>

lemma set_insertBack: "set (insertBack lt x rp) = insert x (set rp)"
  by (induction rp) auto

lemma set_foldl_insertBack: "set (foldl (\<lambda>rp x. insertBack lt x rp) acc xs) = set acc \<union> set xs"
  by (induction xs arbitrary: acc) (auto simp: set_insertBack)

lemma set_sliceStable: "set (sliceStable lt xs) = set xs"
  by (simp add: sliceStable_def set_foldl_insertBack)

lemma set_update_subset: "set (AList.update k v al) \<subseteq> insert (k, v) (set al)"
  by (induction al) auto

lemma minCsLoop_values: "snd ` set (minCsLoop sites visited m) \<subseteq> snd ` set m \<union> set sites"
proof (induction sites arbitrary: m)
  case Nil
  then show ?case by simp
next
  case (Cons cs sites)
  have "snd ` set (AList.update (Parent cs) cs m) \<subseteq> insert cs (snd ` set m)"
    using set_update_subset [of "Parent cs" cs m] by auto
  with Cons.IH [of m] Cons.IH [of "AList.update (Parent cs) cs m"] show ?case
    by (simp del: AList.update.simps) blast
qed

lemma set_map_filter_map_of: "set (List.map_filter (map_of m) ks) \<subseteq> snd ` set m"
  by (induction ks) (auto simp: split: option.splits dest!: map_of_SomeD intro: rev_image_eqI)

lemma callsites_subset: "set (callsites rk sites visited) \<subseteq> set sites"
  using set_map_filter_map_of [of "minCsLoop sites visited []"] minCsLoop_values [of sites visited "[]"]
  by (auto simp: callsites_def Let_def)

lemma CallSites_callers: "cs \<in> set (CallSites res fn) \<Longrightarrow> Parent cs \<in> callers res"
proof -
  assume a: "cs \<in> set (CallSites res fn)"
  then obtain css where m: "map_of (CallGraph res) fn = Some css" and c: "cs \<in> set css"
    by (cases "map_of (CallGraph res) fn") (auto simp: CallSites_def)
  from m have "(fn, css) \<in> set (CallGraph res)" by (rule map_of_SomeD)
  with c show ?thesis unfolding callers_def by force
qed

lemma seen_expandSite: "seen (expandSite en sk c s cs) = seen s"
  by (simp add: expandSite_def Let_def)

lemma queue_expandSite:
  "cc_f ` set (queue (expandSite en sk c s cs)) \<subseteq> insert (Parent cs) (cc_f ` set (queue s))"
  by (auto simp: expandSite_def Let_def)

lemma seen_foldl_expandSite: "seen (foldl (expandSite en sk c) s css) = seen s"
  by (induction css arbitrary: s) (simp_all add: seen_expandSite)

lemma queue_foldl_expandSite:
  "cc_f ` set (queue (foldl (expandSite en sk c) s css)) \<subseteq> cc_f ` set (queue s) \<union> Parent ` set css"
proof (induction css arbitrary: s)
  case Nil
  then show ?case by simp
next
  case (Cons cs css)
  show ?case using Cons.IH [of "expandSite en sk c s cs"] queue_expandSite [of en sk c s cs]
    by auto
qed

lemma finite_callers: "finite (callers res)"
  by (simp add: callers_def)

lemma step_decreases:
  assumes "queue s \<noteq> []"
  shows "unseen res (step res rk en sk s) < unseen res s
       \<or> (unseen res (step res rk en sk s) = unseen res s
          \<and> length (queue (step res rk en sk s)) < length (queue s))"
proof -
  from assms obtain c rest where q: "queue s = c # rest" by (cases "queue s") auto
  show ?thesis
  proof (cases "seen s (cc_f c)")
    case True
    then have st: "step res rk en sk s = s\<lparr>queue := rest\<rparr>"
      by (simp add: step_def q)
    have "(callers res \<union> cc_f ` set rest) - {x. seen s x}
        = (callers res \<union> cc_f ` set (c # rest)) - {x. seen s x}"
      using True by auto
    then show ?thesis by (simp add: st unseen_def q)
  next
    case False
    define s1 where "s1 = s\<lparr>queue := rest, seen := (seen s)(cc_f c := True)\<rparr>"
    define css where "css = callsites (rk (cc_f c)) (CallSites res (cc_f c)) (seen s1)"
    have st: "step res rk en sk s = foldl (expandSite en sk c) s1 css"
      using False by (simp add: step_def q s1_def css_def Let_def)
    have "Parent ` set css \<subseteq> callers res"
      using callsites_subset [of "rk (cc_f c)" "CallSites res (cc_f c)" "seen s1"]
      by (auto simp: css_def dest: CallSites_callers)
    with queue_foldl_expandSite [of en sk c s1 css]
    have "cc_f ` set (queue (step res rk en sk s)) \<subseteq> cc_f ` set rest \<union> callers res"
      by (auto simp: st s1_def)
    moreover have "seen (step res rk en sk s) = (seen s)(cc_f c := True)"
      by (simp add: st seen_foldl_expandSite s1_def)
    ultimately have "(callers res \<union> cc_f ` set (queue (step res rk en sk s))) - {x. seen (step res rk en sk s) x}
        \<subset> (callers res \<union> cc_f ` set (queue s)) - {x. seen s x}"
      using False q by auto
    then have "unseen res (step res rk en sk s) < unseen res s"
      unfolding unseen_def by (intro psubset_card_mono) (auto simp: finite_callers)
    then show ?thesis by simp
  qed
qed

text \<open>
  The outer loop of \<open>callStack\<close>: iterate while the queue is not empty. Every iteration
  marks a new function or shortens the queue, so the loop ends.
\<close>

function bfs ::
  "Result \<Rightarrow> (FuncNode \<Rightarrow> mapOrder) \<Rightarrow> (FuncNode \<Rightarrow> bool) \<Rightarrow> (FuncNode \<Rightarrow> bool) \<Rightarrow> search \<Rightarrow> search"
where
  "bfs res rank entries skipSymbols s =
     (if queue s = [] then s else bfs res rank entries skipSymbols (step res rank entries skipSymbols s))"
  by pat_completeness auto
termination
proof (relation "measures [\<lambda>(res, rank, entries, skipSymbols, s). unseen res s,
                           \<lambda>(res, rank, entries, skipSymbols, s). length (queue s)]")
  show "wf (measures [\<lambda>(res, rank, entries, skipSymbols, s). unseen res s,
                      \<lambda>(res, rank, entries, skipSymbols, s). length (queue s)])"
    by simp
next
  fix res rank entries skipSymbols and s :: search
  assume "queue s \<noteq> []"
  from step_decreases [OF this, of res rank entries skipSymbols]
  show "((res, rank, entries, skipSymbols, step res rank entries skipSymbols s),
         (res, rank, entries, skipSymbols, s))
        \<in> measures [\<lambda>(res, rank, entries, skipSymbols, s). unseen res s,
                     \<lambda>(res, rank, entries, skipSymbols, s). length (queue s)]"
    by auto
qed

section \<open>\<open>callStack\<close> and \<open>CallStacks\<close>\<close>

text \<open>
  The comparator of the final sort: by weight, and \<open>true\<close> where the weights agree.
\<close>

definition stackLess :: "CallStack \<Rightarrow> CallStack \<Rightarrow> bool" where
  "stackLess s1 s2 = (let w1 = weight s1; w2 = weight s2 in if w1 \<noteq> w2 then w1 < w2 else True)"

definition initSearch :: "FuncNode \<Rightarrow> search" where
  "initSearch vulnSink =
     \<lparr>queue = [CallChain None vulnSink None], seen = (\<lambda>_. False), candidates = [], candDepth = 0\<rparr>"

text \<open>
  \<open>callStack\<close>: nil (\<open>None\<close>) without a call sink; otherwise the search, the stable sort
  of the candidates and the first of them, nil when there is none.
\<close>

definition callStack :: "(FuncNode \<Rightarrow> mapOrder) \<Rightarrow> Vuln \<Rightarrow> Result \<Rightarrow> CallStack option" where
  "callStack rank vuln res =
     (case CallSink vuln of
        None \<Rightarrow> None
      | Some vulnSink \<Rightarrow>
          (let s = bfs res rank (entriesOf res) (skipSymbolsOf vuln res) (initSearch vulnSink)
           in case sliceStable stackLess (candidates s) of
                [] \<Rightarrow> None
              | st # _ \<Rightarrow> Some st))"

text \<open>
  \<open>CallStacks\<close>: one task per vulnerability; each task stores its stack in the shared
  map under the lock. \<open>sched\<close> lists the vulnerabilities in the order in which their tasks
  take the lock: some order of \<open>res.Vulns\<close>. The map orders of a task are given by
  \<open>rank\<close> of its vulnerability.
\<close>

definition CallStacksIn ::
  "(Vuln \<Rightarrow> FuncNode \<Rightarrow> mapOrder) \<Rightarrow> Vuln list \<Rightarrow> Result \<Rightarrow> (Vuln \<rightharpoonup> CallStack option)"
where
  "CallStacksIn rank sched res =
     foldl (\<lambda>stackPerVuln vuln. stackPerVuln(vuln \<mapsto> callStack (rank vuln) vuln res)) Map.empty sched"

section \<open>Invariants of the loop\<close>

text \<open>The loop equation is unfolded by hand only.\<close>

declare bfs.simps [simp del]

lemma bfs_invariant:
  assumes init: "P s"
    and stp: "\<And>s. P s \<Longrightarrow> queue s \<noteq> [] \<Longrightarrow> P (step res rk en sk s)"
  shows "P (bfs res rk en sk s) \<and> queue (bfs res rk en sk s) = []"
  using assms
proof (induction res rk en sk s rule: bfs.induct)
  case (1 res rank entries skipSymbols s)
  show ?case
  proof (cases "queue s = []")
    case True
    with "1.prems"(1) show ?thesis by (subst bfs.simps, subst bfs.simps) simp
  next
    case False
    from "1.prems"(1) False have "P (step res rank entries skipSymbols s)" by (rule "1.prems"(2))
    from "1.IH" [OF False this "1.prems"(2)] show ?thesis using False
      by (subst bfs.simps, subst (2) bfs.simps) simp
  qed
qed

lemma entriesOf_set: "entriesOf res fn = (fn \<in> set (EntryFunctions res))"
proof -
  have "foldl (\<lambda>m e. m(e := True)) m0 es fn = (m0 fn \<or> fn \<in> set es)" for m0 es
    by (induction es arbitrary: m0) auto
  then show ?thesis by (simp add: entriesOf_def)
qed

definition sibling :: "Vuln \<Rightarrow> Vuln \<Rightarrow> bool" where
  "sibling vuln v = (v \<noteq> vuln \<and> OSV v = OSV vuln \<and> ImportSink v = ImportSink vuln)"

lemma skipSymbolsOf_set:
  "skipSymbolsOf vuln res fn = (\<exists>v \<in> set (Vulns res). sibling vuln v \<and> CallSink v = Some fn)"
proof -
  have "foldl (\<lambda>m v. case CallSink v of None \<Rightarrow> m
                 | Some snk \<Rightarrow> if v \<noteq> vuln \<and> OSV v = OSV vuln \<and> ImportSink v = ImportSink vuln
                     then m(snk := True) else m) m0 vs fn
        = (m0 fn \<or> (\<exists>v \<in> set vs. sibling vuln v \<and> CallSink v = Some fn))" for m0 vs
    by (induction vs arbitrary: m0) (auto simp: sibling_def split: option.splits)
  then show ?thesis by (simp add: skipSymbolsOf_def)
qed

section \<open>Running the loop by hand\<close>

lemma bfs_step: "queue s \<noteq> [] \<Longrightarrow> bfs res rk en sk s = bfs res rk en sk (step res rk en sk s)"
  by (subst bfs.simps) simp

lemma bfs_done: "queue s = [] \<Longrightarrow> bfs res rk en sk s = s"
  by (subst bfs.simps) simp

lemma callsites_single:
  "\<not> visited (Parent cs) \<Longrightarrow> callsites rk [cs] visited = [cs]"
  by (simp add: callsites_def rangeMap_def sliceStable_def csLess_def)

lemma callsites_nil: "callsites rk [] visited = []"
  by (simp add: callsites_def rangeMap_def sliceStable_def)

section \<open>Scenarios\<close>

text \<open>A map order that ranks every key alike: the map is ranged over in insertion order.\<close>

definition insertionOrder :: "FuncNode \<Rightarrow> mapOrder" where
  "insertionOrder fn key = 0"

definition mkPos :: "int \<Rightarrow> Position option" where
  "mkPos l = Some \<lparr>Filename = ''main.go'', Line = l, Column = 1\<rparr>"

text \<open>The chain \<open>entry \<rightarrow> a \<rightarrow> b \<rightarrow> sink\<close>, positions ordered by line, all calls resolved.\<close>

definition fEntry :: FuncNode where
  "fEntry = \<lparr>FuncID = 0, FuncString = ''main.entry'', FuncPos = mkPos 10\<rparr>"

definition fA :: FuncNode where
  "fA = \<lparr>FuncID = 1, FuncString = ''main.a'', FuncPos = mkPos 20\<rparr>"

definition fB :: FuncNode where
  "fB = \<lparr>FuncID = 2, FuncString = ''main.b'', FuncPos = mkPos 30\<rparr>"

definition fSink :: FuncNode where
  "fSink = \<lparr>FuncID = 3, FuncString = ''lib.sink'', FuncPos = mkPos 40\<rparr>"

definition csEA :: CallSite where
  "csEA = \<lparr>Parent = fEntry, Name = ''a'', RecvType = '''', Pos = mkPos 11, Resolved = True\<rparr>"

definition csAB :: CallSite where
  "csAB = \<lparr>Parent = fA, Name = ''b'', RecvType = '''', Pos = mkPos 21, Resolved = True\<rparr>"

definition csBS :: CallSite where
  "csBS = \<lparr>Parent = fB, Name = ''sink'', RecvType = '''', Pos = mkPos 31, Resolved = True\<rparr>"

definition vChain :: Vuln where
  "vChain = \<lparr>VulnID = 0, OSV = Some 0, CallSink = Some fSink, ImportSink = Some 0\<rparr>"

definition rChain :: Result where
  "rChain = \<lparr>EntryFunctions = [fEntry], Vulns = [vChain],
              CallGraph = [(fA, [csEA]), (fB, [csAB]), (fSink, [csBS])]\<rparr>"

text \<open>
  Two entry functions without a position (two \<open>init\<close> functions) that both call the
  vulnerable function, through resolved calls without a position.
\<close>

definition fInitA :: FuncNode where
  "fInitA = \<lparr>FuncID = 10, FuncString = ''a.init'', FuncPos = None\<rparr>"

definition fInitB :: FuncNode where
  "fInitB = \<lparr>FuncID = 11, FuncString = ''b.init'', FuncPos = None\<rparr>"

definition fVuln :: FuncNode where
  "fVuln = \<lparr>FuncID = 12, FuncString = ''lib.Vuln'', FuncPos = mkPos 5\<rparr>"

definition csInitA :: CallSite where
  "csInitA = \<lparr>Parent = fInitA, Name = ''Vuln'', RecvType = ''A'', Pos = None, Resolved = True\<rparr>"

definition csInitB :: CallSite where
  "csInitB = \<lparr>Parent = fInitB, Name = ''Vuln'', RecvType = ''B'', Pos = None, Resolved = True\<rparr>"

definition vInit :: Vuln where
  "vInit = \<lparr>VulnID = 0, OSV = Some 0, CallSink = Some fVuln, ImportSink = Some 0\<rparr>"

definition rInit :: Result where
  "rInit = \<lparr>EntryFunctions = [fInitA, fInitB], Vulns = [vInit],
             CallGraph = [(fVuln, [csInitA, csInitB])]\<rparr>"

text \<open>Two map orders: by ascending and by descending identifier of the key.\<close>

definition ascendingOrder :: "FuncNode \<Rightarrow> mapOrder" where
  "ascendingOrder fn key = FuncID key"

definition descendingOrder :: "FuncNode \<Rightarrow> mapOrder" where
  "descendingOrder fn key = 100 - FuncID key"

section \<open>The comparators without positions\<close>

text \<open>
  Claim C8. A pair of call sites, or of functions, that both lack a position should be
  ordered by their qualified names. The code does not do so: whenever the second
  argument has no position, \<open>funcLess\<close> and \<open>csLess\<close> answer \<open>true\<close>, whatever the
  names are; the comparison of the names behind is never reached. So \<open>b.init\<close> is
  declared less than \<open>a.init\<close>, and the call site of receiver \<open>B\<close> less than the one of
  receiver \<open>A\<close>.
\<close>

theorem C8_no_position_ignores_names:
  "funcLess f1 (f2\<lparr>FuncPos := None\<rparr>)
   \<and> csLess cs1 (Some (cs2\<lparr>Pos := None\<rparr>))
   \<and> funcLess fInitB fInitA \<and> funcLess fInitA fInitB
   \<and> \<not> FuncString fInitB < FuncString fInitA
   \<and> csLess csInitB (Some csInitA) \<and> csLess csInitA (Some csInitB)
   \<and> \<not> RecvType csInitB @ ''.'' @ Name csInitB < RecvType csInitA @ ''.'' @ Name csInitA"
proof -
  have "funcLess f1 (f2\<lparr>FuncPos := None\<rparr>)"
    by (simp add: funcLess_def split: option.splits)
  moreover have "csLess cs1 (Some (cs2\<lparr>Pos := None\<rparr>))"
    by (simp add: csLess_def split: option.splits)
  moreover have "funcLess fInitB fInitA \<and> funcLess fInitA fInitB
      \<and> \<not> FuncString fInitB < FuncString fInitA"
    by code_simp
  moreover have "csLess csInitB (Some csInitA) \<and> csLess csInitA (Some csInitB)
      \<and> \<not> RecvType csInitB @ ''.'' @ Name csInitB < RecvType csInitA @ ''.'' @ Name csInitA"
    by code_simp
  ultimately show ?thesis by simp
qed

section \<open>Dependence on the map order\<close>

text \<open>
  Claim C3. Two runs of \<open>CallStacks\<close> on the same result should give the same mapping.
  They need not: with two entry functions without a position that call the vulnerable
  function, \<open>funcLess\<close> holds in both directions, the stable sort of \<open>callsites\<close> keeps
  the reverse of the order in which the map was ranged over, and the witness returned is
  the stack of \<open>a.init\<close> under one map order and the stack of \<open>b.init\<close> under the other.
\<close>

theorem C3_map_order_changes_output:
  "callStack ascendingOrder vInit rInit
     = Some [\<lparr>Function = fInitA, Call = Some csInitA\<rparr>, \<lparr>Function = fVuln, Call = None\<rparr>]
   \<and> callStack descendingOrder vInit rInit
     = Some [\<lparr>Function = fInitB, Call = Some csInitB\<rparr>, \<lparr>Function = fVuln, Call = None\<rparr>]
   \<and> CallStacksIn (\<lambda>v. ascendingOrder) [vInit] rInit vInit
     \<noteq> CallStacksIn (\<lambda>v. descendingOrder) [vInit] rInit vInit"
proof -
  have a: "callStack ascendingOrder vInit rInit
     = Some [\<lparr>Function = fInitA, Call = Some csInitA\<rparr>, \<lparr>Function = fVuln, Call = None\<rparr>]"
    by code_simp
  have b: "callStack descendingOrder vInit rInit
     = Some [\<lparr>Function = fInitB, Call = Some csInitB\<rparr>, \<lparr>Function = fVuln, Call = None\<rparr>]"
    by code_simp
  have "fInitA \<noteq> fInitB" by (simp add: fInitA_def fInitB_def)
  with a b show ?thesis by (simp add: CallStacksIn_def)
qed

section \<open>The chain scenario\<close>

text \<open>
  Claim C9, as stated: the witness of the chain \<open>entry \<rightarrow> a \<rightarrow> b \<rightarrow> sink\<close> is the
  3-frame stack \<open>entry, a, b\<close>. It is not: the stack returned has four frames, the last
  one being the frame of the sink itself.
\<close>

theorem C9_counterexample:
  "callStack insertionOrder vChain rChain
     \<noteq> Some [\<lparr>Function = fEntry, Call = Some csEA\<rparr>, \<lparr>Function = fA, Call = Some csAB\<rparr>,
             \<lparr>Function = fB, Call = Some csBS\<rparr>]
   \<and> map_option length (callStack insertionOrder vChain rChain) = Some 4"
  by code_simp

text \<open>
  Claim C9, amended: for every chain \<open>entry \<rightarrow> a \<rightarrow> b \<rightarrow> sink\<close> of four distinct functions
  with resolved calls, \<open>entry\<close> the only entry function and \<open>sink\<close> the call sink of the
  only vulnerability, the witness is the 4-frame stack \<open>entry, a, b, sink\<close>: every frame
  but the last carries the call into the next one, the frame of the sink carries none,
  and the weight of the stack is 0. This holds for every map order.
\<close>

theorem C9_chain_witness:
  assumes d: "distinct [fe, fa, fb, fs]"
    and p: "Parent c1 = fe" "Parent c2 = fa" "Parent c3 = fb"
    and r: "Resolved c1" "Resolved c2" "Resolved c3"
    and res: "EntryFunctions res = [fe]" "CallGraph res = [(fa, [c1]), (fb, [c2]), (fs, [c3])]"
    and v: "CallSink vuln = Some fs" "Vulns res = [vuln]"
  shows "callStack rank vuln res =
           Some [\<lparr>Function = fe, Call = Some c1\<rparr>, \<lparr>Function = fa, Call = Some c2\<rparr>,
                 \<lparr>Function = fb, Call = Some c3\<rparr>, \<lparr>Function = fs, Call = None\<rparr>]
       \<and> weight [\<lparr>Function = fe, Call = Some c1\<rparr>, \<lparr>Function = fa, Call = Some c2\<rparr>,
                 \<lparr>Function = fb, Call = Some c3\<rparr>, \<lparr>Function = fs, Call = None\<rparr>] = 0"
proof -
  have ne: "fe \<noteq> fa" "fe \<noteq> fb" "fe \<noteq> fs" "fa \<noteq> fb" "fa \<noteq> fs" "fb \<noteq> fs"
     "fa \<noteq> fe" "fb \<noteq> fe" "fs \<noteq> fe" "fb \<noteq> fa" "fs \<noteq> fa" "fs \<noteq> fb"
    using d by auto
  define en where "en = entriesOf res"
  define sk where "sk = skipSymbolsOf vuln res"
  have en: "en = (\<lambda>_. False)(fe := True)" by (simp add: en_def entriesOf_def res)
  have sk: "sk = (\<lambda>_. False)" by (simp add: sk_def skipSymbolsOf_def v)
  have cs: "CallSites res fs = [c3]" "CallSites res fb = [c2]" "CallSites res fa = [c1]"
      "CallSites res fe = []"
    using ne by (simp_all add: CallSites_def res)
  define k0 where "k0 = CallChain None fs None"
  define k1 where "k1 = CallChain (Some c3) fb (Some k0)"
  define k2 where "k2 = CallChain (Some c2) fa (Some k1)"
  define k3 where "k3 = CallChain (Some c1) fe (Some k2)"
  define v0 where "v0 = (\<lambda>_::FuncNode. False)"
  define v1 where "v1 = v0(fs := True)"
  define v2 where "v2 = v1(fb := True)"
  define v3 where "v3 = v2(fa := True)"
  define v4 where "v4 = v3(fe := True)"
  define st where "st = CallStack (Some k3)"
  have s1: "step res rank en sk \<lparr>queue = [k0], seen = v0, candidates = [], candDepth = 0\<rparr>
            = \<lparr>queue = [k1], seen = v1, candidates = [], candDepth = 0\<rparr>"
    using ne by (simp add: step_def k0_def k1_def v0_def v1_def cs callsites_single p
        expandSite_def Let_def en sk)
  have s2: "step res rank en sk \<lparr>queue = [k1], seen = v1, candidates = [], candDepth = 0\<rparr>
            = \<lparr>queue = [k2], seen = v2, candidates = [], candDepth = 0\<rparr>"
    using ne by (simp add: step_def k1_def k2_def v0_def v1_def v2_def cs callsites_single p
        expandSite_def Let_def en sk)
  have s3: "step res rank en sk \<lparr>queue = [k2], seen = v2, candidates = [], candDepth = 0\<rparr>
            = \<lparr>queue = [k3], seen = v3, candidates = [st], candDepth = length st\<rparr>"
    using ne by (simp add: step_def k2_def k3_def v0_def v1_def v2_def v3_def cs callsites_single p
        expandSite_def Let_def en sk st_def)
  have s4: "step res rank en sk \<lparr>queue = [k3], seen = v3, candidates = [st], candDepth = length st\<rparr>
            = \<lparr>queue = [], seen = v4, candidates = [st], candDepth = length st\<rparr>"
    using ne by (simp add: step_def k3_def v0_def v1_def v2_def v3_def v4_def cs callsites_nil)
  have "bfs res rank en sk (initSearch fs)
          = \<lparr>queue = [], seen = v4, candidates = [st], candDepth = length st\<rparr>"
    by (simp add: initSearch_def k0_def [symmetric] v0_def [symmetric] bfs_step s1 s2 s3 s4 bfs_done)
  then have "callStack rank vuln res = Some st"
    by (simp add: callStack_def v en_def sk_def sliceStable_def)
  moreover have "st = [\<lparr>Function = fe, Call = Some c1\<rparr>, \<lparr>Function = fa, Call = Some c2\<rparr>,
                 \<lparr>Function = fb, Call = Some c3\<rparr>, \<lparr>Function = fs, Call = None\<rparr>]"
    by (simp add: st_def k3_def k2_def k1_def k0_def)
  ultimately show ?thesis using r by (simp add: weight_def)
qed

theorem C9_chain_witness_inst:
  "distinct [fEntry, fA, fB, fSink]
   \<and> Parent csEA = fEntry \<and> Parent csAB = fA \<and> Parent csBS = fB
   \<and> Resolved csEA \<and> Resolved csAB \<and> Resolved csBS
   \<and> EntryFunctions rChain = [fEntry]
   \<and> CallGraph rChain = [(fA, [csEA]), (fB, [csAB]), (fSink, [csBS])]
   \<and> CallSink vChain = Some fSink \<and> Vulns rChain = [vChain]
   \<and> callStack descendingOrder vChain rChain =
           Some [\<lparr>Function = fEntry, Call = Some csEA\<rparr>, \<lparr>Function = fA, Call = Some csAB\<rparr>,
                 \<lparr>Function = fB, Call = Some csBS\<rparr>, \<lparr>Function = fSink, Call = None\<rparr>]
   \<and> weight [\<lparr>Function = fEntry, Call = Some csEA\<rparr>, \<lparr>Function = fA, Call = Some csAB\<rparr>,
                 \<lparr>Function = fB, Call = Some csBS\<rparr>, \<lparr>Function = fSink, Call = None\<rparr>] = 0"
proof -
  have d: "distinct [fEntry, fA, fB, fSink]"
    by (simp add: fEntry_def fA_def fB_def fSink_def)
  have p: "Parent csEA = fEntry" "Parent csAB = fA" "Parent csBS = fB"
    by (simp_all add: csEA_def csAB_def csBS_def)
  have r: "Resolved csEA" "Resolved csAB" "Resolved csBS"
    by (simp_all add: csEA_def csAB_def csBS_def)
  have res: "EntryFunctions rChain = [fEntry]"
      "CallGraph rChain = [(fA, [csEA]), (fB, [csAB]), (fSink, [csBS])]"
    by (simp_all add: rChain_def)
  have v: "CallSink vChain = Some fSink" "Vulns rChain = [vChain]"
    by (simp_all add: vChain_def rChain_def)
  from C9_chain_witness [OF d p r res v, of descendingOrder] d p r res v
  show ?thesis by simp
qed

section \<open>The call sites chosen: one for every caller not visited\<close>

lemma csLess_None [simp]: "csLess cs None"
  by (simp add: csLess_def)

lemma minCsLoop_entries:
  assumes "\<forall>kv \<in> set m. fst kv = Parent (snd kv) \<and> \<not> visited (fst kv)"
  shows "\<forall>kv \<in> set (minCsLoop sites visited m). fst kv = Parent (snd kv) \<and> \<not> visited (fst kv)"
  using assms
proof (induction sites arbitrary: m)
  case Nil
  then show ?case by auto
next
  case (Cons cs sites)
  show ?case
  proof (cases "\<not> visited (Parent cs) \<and> csLess cs (map_of m (Parent cs))")
    case True
    have "\<forall>kv \<in> set (AList.update (Parent cs) cs m). fst kv = Parent (snd kv) \<and> \<not> visited (fst kv)"
      using Cons.prems True set_update_subset [of "Parent cs" cs m] by auto
    from Cons.IH [OF this] True show ?thesis by auto
  next
    case False
    with Cons.IH [OF Cons.prems] show ?thesis by auto
  qed
qed

lemma minCsLoop_keys:
  "fst ` set (minCsLoop sites visited m)
     = fst ` set m \<union> {p. \<exists>cs \<in> set sites. p = Parent cs \<and> \<not> visited p}"
proof (induction sites arbitrary: m)
  case Nil
  then show ?case by simp
next
  case (Cons cs sites)
  show ?case
  proof (cases "visited (Parent cs)")
    case True
    with Cons.IH [of m] show ?thesis by auto
  next
    case nv: False
    show ?thesis
    proof (cases "csLess cs (map_of m (Parent cs))")
      case True
      have "fst ` set (AList.update (Parent cs) cs m) = {Parent cs} \<union> fst ` set m"
        by (rule dom_update)
      with Cons.IH [of "AList.update (Parent cs) cs m"] nv True show ?thesis by auto
    next
      case False
      then have "map_of m (Parent cs) \<noteq> None" by (cases "map_of m (Parent cs)") auto
      then have "Parent cs \<in> fst ` set m" by (simp add: map_of_eq_None_iff)
      with Cons.IH [of m] nv False show ?thesis by auto
    qed
  qed
qed

lemma set_rangeMap: "set (rangeMap rk m) = set m"
  by (simp add: rangeMap_def)

lemma callsites_parents:
  "Parent ` set (callsites rk sites visited) = {p. \<exists>cs \<in> set sites. p = Parent cs \<and> \<not> visited p}"
proof -
  define m where "m = minCsLoop sites visited []"
  define fs where "fs = sliceStable funcLess (map (\<lambda>kv. Parent (snd kv)) (rangeMap rk m))"
  have ent: "\<forall>kv \<in> set m. fst kv = Parent (snd kv) \<and> \<not> visited (fst kv)"
    unfolding m_def by (rule minCsLoop_entries) simp
  have keys: "fst ` set m = {p. \<exists>cs \<in> set sites. p = Parent cs \<and> \<not> visited p}"
    unfolding m_def by (simp add: minCsLoop_keys)
  have fs: "set fs = fst ` set m"
    using ent by (auto simp: fs_def set_sliceStable set_rangeMap intro!: image_eqI)
  have cs: "callsites rk sites visited = List.map_filter (map_of m) fs"
    by (simp add: callsites_def m_def fs_def Let_def)
  have "Parent ` set (List.map_filter (map_of m) fs) = fst ` set m"
  proof (intro set_eqI iffI)
    fix p assume "p \<in> Parent ` set (List.map_filter (map_of m) fs)"
    then obtain k v where "k \<in> set fs" "map_of m k = Some v" "p = Parent v"
      by (auto simp: List.map_filter_def)
    then have "(k, v) \<in> set m" by (auto dest: map_of_SomeD)
    with ent \<open>p = Parent v\<close> show "p \<in> fst ` set m" by force
  next
    fix p assume p: "p \<in> fst ` set m"
    then obtain v where v: "map_of m p = Some v"
      by (cases "map_of m p") (auto simp: map_of_eq_None_iff)
    then have "(p, v) \<in> set m" by (rule map_of_SomeD)
    with ent have "Parent v = p" by force
    moreover have "v \<in> set (List.map_filter (map_of m) fs)"
      using p fs v by (auto simp: List.map_filter_def intro!: image_eqI [where x = p])
    ultimately show "p \<in> Parent ` set (List.map_filter (map_of m) fs)" by force
  qed
  with keys cs show ?thesis by simp
qed

lemma callsites_unvisited: "cs \<in> set (callsites rk sites visited) \<Longrightarrow> \<not> visited (Parent cs)"
  using callsites_parents [of rk sites visited] by auto

section \<open>What the queue and the candidates hold\<close>

text \<open>
  \<open>linked res st\<close>: every frame of \<open>st\<close> but the last carries a call site of its own
  function that is a call site of the function of the next frame, and the last frame
  carries none.
\<close>

fun linked :: "Result \<Rightarrow> CallStack \<Rightarrow> bool" where
  "linked res [] = True"
| "linked res [e] = (Call e = None)"
| "linked res (e # e' # st) =
     ((case Call e of
         None \<Rightarrow> False
       | Some cs \<Rightarrow> Parent cs = Function e \<and> cs \<in> set (CallSites res (Function e')))
      \<and> linked res (e' # st))"

text \<open>
  A chain of the queue: its stack is linked, ends at the sink, and none of its functions
  but the sink is a skipped symbol.
\<close>

definition chainOK :: "Result \<Rightarrow> (FuncNode \<Rightarrow> bool) \<Rightarrow> FuncNode \<Rightarrow> callChain \<Rightarrow> bool" where
  "chainOK res sk snk c =
     (linked res (CallStack (Some c)) \<and> Function (last (CallStack (Some c))) = snk
      \<and> (\<forall>e \<in> set (butlast (CallStack (Some c))). \<not> sk (Function e)))"

text \<open>
  A candidate: a linked stack of at least two frames from an entry function other than
  the sink down to the sink, with no skipped symbol strictly inside.
\<close>

definition candOK ::
  "Result \<Rightarrow> (FuncNode \<Rightarrow> bool) \<Rightarrow> (FuncNode \<Rightarrow> bool) \<Rightarrow> FuncNode \<Rightarrow> CallStack \<Rightarrow> bool"
where
  "candOK res en sk snk st =
     (2 \<le> length st \<and> linked res st \<and> Function (last st) = snk
      \<and> en (Function (hd st)) \<and> Function (hd st) \<noteq> snk
      \<and> (\<forall>e \<in> set (butlast (tl st)). \<not> sk (Function e)))"

text \<open>The invariant of the loop.\<close>

definition sound ::
  "Result \<Rightarrow> (FuncNode \<Rightarrow> bool) \<Rightarrow> (FuncNode \<Rightarrow> bool) \<Rightarrow> FuncNode \<Rightarrow> search \<Rightarrow> bool"
where
  "sound res en sk snk s =
     ((\<forall>c \<in> set (queue s). chainOK res sk snk c)
      \<and> (\<forall>st \<in> set (candidates s). candOK res en sk snk st \<and> length st = candDepth s)
      \<and> (seen s snk \<or> queue s = [CallChain None snk None]))"

lemma CallStack_Some: "CallStack (Some c) = \<lparr>Function = cc_f c, Call = cc_call c\<rparr> # CallStack (cc_child c)"
  by (cases c) simp

lemma CallStack_nonempty [simp]: "CallStack (Some c) \<noteq> []"
  by (cases c) simp

lemma hd_CallStack [simp]: "Function (hd (CallStack (Some c))) = cc_f c"
  by (cases c) simp

lemma linked_push:
  assumes "linked res st" "st \<noteq> []" "cs \<in> set (CallSites res (Function (hd st)))"
  shows "linked res (\<lparr>Function = Parent cs, Call = Some cs\<rparr> # st)"
  using assms by (cases st) auto

lemma chainOK_init: "chainOK res sk snk (CallChain None snk None)"
  by (simp add: chainOK_def)

lemma chainOK_push:
  assumes "chainOK res sk snk c" "cs \<in> set (CallSites res (cc_f c))" "\<not> sk (Parent cs)"
  shows "chainOK res sk snk (CallChain (Some cs) (Parent cs) (Some c))"
  using assms by (auto simp: chainOK_def linked_push)

lemma candOK_push:
  assumes "chainOK res sk snk c" "cs \<in> set (CallSites res (cc_f c))" "en (Parent cs)" "Parent cs \<noteq> snk"
  shows "candOK res en sk snk (CallStack (Some (CallChain (Some cs) (Parent cs) (Some c))))"
proof -
  have "1 \<le> length (CallStack (Some c))" by (cases c) simp
  with assms show ?thesis by (auto simp: chainOK_def candOK_def linked_push)
qed

lemma sound_expandSite:
  assumes s: "sound res en sk snk s" and c: "chainOK res sk snk c"
    and cs: "cs \<in> set (CallSites res (cc_f c))" and ns: "\<not> seen s (Parent cs)" and sn: "seen s snk"
  shows "sound res en sk snk (expandSite en sk c s cs)"
proof -
  from ns sn have ne: "Parent cs \<noteq> snk" by auto
  note push = chainOK_push [OF c cs] candOK_push [OF c cs _ ne]
  show ?thesis using s sn push
    by (auto simp: sound_def expandSite_def Let_def)
qed

lemma sound_foldl_expandSite:
  assumes "sound res en sk snk s" "chainOK res sk snk c"
    "set css \<subseteq> set (CallSites res (cc_f c))" "\<forall>cs \<in> set css. \<not> seen s (Parent cs)" "seen s snk"
  shows "sound res en sk snk (foldl (expandSite en sk c) s css)"
  using assms
proof (induction css arbitrary: s)
  case Nil
  then show ?case by simp
next
  case (Cons cs css)
  have "sound res en sk snk (expandSite en sk c s cs)"
    using Cons.prems by (intro sound_expandSite) auto
  then show ?case using Cons.prems
    by (simp, intro Cons.IH) (auto simp: seen_expandSite)
qed

lemma sound_step:
  assumes "sound res en sk snk s"
  shows "sound res en sk snk (step res rk en sk s)"
proof (cases "queue s")
  case Nil
  with assms show ?thesis by (simp add: step_def)
next
  case (Cons c rest)
  show ?thesis
  proof (cases "seen s (cc_f c)")
    case True
    with assms Cons show ?thesis by (auto simp: step_def sound_def)
  next
    case False
    define s1 where "s1 = s\<lparr>queue := rest, seen := (seen s)(cc_f c := True)\<rparr>"
    define css where "css = callsites (rk (cc_f c)) (CallSites res (cc_f c)) (seen s1)"
    have st: "step res rk en sk s = foldl (expandSite en sk c) s1 css"
      using False by (simp add: step_def Cons s1_def css_def Let_def)
    have c: "chainOK res sk snk c" using assms Cons by (simp add: sound_def)
    have sn: "seen s1 snk" using assms Cons by (auto simp: sound_def s1_def)
    have "sound res en sk snk s1" using assms Cons sn by (auto simp: sound_def s1_def)
    then show ?thesis unfolding st
      using c sn callsites_subset [of "rk (cc_f c)" "CallSites res (cc_f c)" "seen s1"]
      by (intro sound_foldl_expandSite) (auto simp: css_def dest: callsites_unvisited)
  qed
qed

lemma sound_init: "sound res en sk snk (initSearch snk)"
  by (simp add: sound_def initSearch_def chainOK_init)

lemma sound_bfs: "sound res en sk snk (bfs res rk en sk (initSearch snk))"
  using bfs_invariant [where P = "sound res en sk snk", OF sound_init sound_step] by blast

section \<open>Paths of the call graph\<close>

text \<open>
  \<open>callPath res vs\<close>: every function of \<open>vs\<close> is the caller of a call site of the next
  one, so \<open>vs\<close> leads from its first function down to its last along call edges.
\<close>

fun callPath :: "Result \<Rightarrow> FuncNode list \<Rightarrow> bool" where
  "callPath res [] = True"
| "callPath res [x] = True"
| "callPath res (x # y # zs) = (x \<in> Parent ` set (CallSites res y) \<and> callPath res (y # zs))"

text \<open>
  A path from an entry function to the sink on which no function strictly inside is a
  skipped symbol. The path of one function is the sink alone, when it is an entry.
\<close>

definition entryPath :: "Result \<Rightarrow> Vuln \<Rightarrow> FuncNode \<Rightarrow> FuncNode list \<Rightarrow> bool" where
  "entryPath res vuln snk vs =
     (vs \<noteq> [] \<and> hd vs \<in> set (EntryFunctions res) \<and> last vs = snk \<and> callPath res vs
      \<and> (\<forall>x \<in> set (butlast (tl vs)). \<not> skipSymbolsOf vuln res x))"

text \<open>
  The paths the search looks for: at least one call, from an entry function other than
  the sink.
\<close>

definition witnessPath :: "Result \<Rightarrow> Vuln \<Rightarrow> FuncNode \<Rightarrow> FuncNode list \<Rightarrow> bool" where
  "witnessPath res vuln snk vs = (entryPath res vuln snk vs \<and> 2 \<le> length vs \<and> hd vs \<noteq> snk)"

section \<open>The result of \<open>callStack\<close>\<close>

lemma callStack_SomeD:
  assumes "callStack rk vuln res = Some st"
  obtains snk where "CallSink vuln = Some snk"
    and "st \<in> set (candidates (bfs res rk (entriesOf res) (skipSymbolsOf vuln res) (initSearch snk)))"
    and "\<exists>rest. sliceStable stackLess
           (candidates (bfs res rk (entriesOf res) (skipSymbolsOf vuln res) (initSearch snk))) = st # rest"
proof (cases "CallSink vuln")
  case None
  with assms show ?thesis by (simp add: callStack_def)
next
  case (Some snk)
  define cands where "cands = candidates (bfs res rk (entriesOf res) (skipSymbolsOf vuln res) (initSearch snk))"
  from assms Some obtain rest where r: "sliceStable stackLess cands = st # rest"
    by (cases "sliceStable stackLess cands") (auto simp: callStack_def cands_def Let_def)
  then have "st \<in> set (sliceStable stackLess cands)" by simp
  then have "st \<in> set cands" by (simp add: set_sliceStable)
  with Some r that show ?thesis unfolding cands_def by blast
qed

lemma callStack_None_iff:
  assumes "CallSink vuln = Some snk"
  shows "callStack rk vuln res = None
     \<longleftrightarrow> candidates (bfs res rk (entriesOf res) (skipSymbolsOf vuln res) (initSearch snk)) = []"
proof -
  define cands where "cands = candidates (bfs res rk (entriesOf res) (skipSymbolsOf vuln res) (initSearch snk))"
  have "sliceStable stackLess cands = [] \<longleftrightarrow> cands = []"
    using set_sliceStable [of stackLess cands] by (metis set_empty)
  then show ?thesis using assms
    by (cases "sliceStable stackLess cands") (auto simp: callStack_def cands_def Let_def)
qed

lemma callStack_candOK:
  assumes "callStack rk vuln res = Some st"
  obtains snk where "CallSink vuln = Some snk"
    and "candOK res (entriesOf res) (skipSymbolsOf vuln res) snk st"
proof -
  from assms obtain snk where snk: "CallSink vuln = Some snk"
    and st: "st \<in> set (candidates (bfs res rk (entriesOf res) (skipSymbolsOf vuln res) (initSearch snk)))"
    by (rule callStack_SomeD)
  from sound_bfs [of res "entriesOf res" "skipSymbolsOf vuln res" snk rk] st
  have "candOK res (entriesOf res) (skipSymbolsOf vuln res) snk st" by (simp add: sound_def)
  with snk that show ?thesis by blast
qed

lemma linked_nth:
  "linked res st \<Longrightarrow> Suc i < length st \<Longrightarrow>
     \<exists>cs. Call (st ! i) = Some cs \<and> Parent cs = Function (st ! i)
          \<and> cs \<in> set (CallSites res (Function (st ! Suc i)))"
proof (induction res st arbitrary: i rule: linked.induct)
  case (3 res e e' st)
  then show ?case by (cases i) (auto split: option.splits)
qed simp_all

lemma linked_last: "linked res st \<Longrightarrow> st \<noteq> [] \<Longrightarrow> Call (last st) = None"
  by (induction res st rule: linked.induct) auto

lemma linked_callPath: "linked res st \<Longrightarrow> callPath res (map Function st)"
  by (induction res st rule: linked.induct) (force split: option.splits)+

lemma candOK_witnessPath:
  assumes "candOK res (entriesOf res) (skipSymbolsOf vuln res) snk st"
  shows "witnessPath res vuln snk (map Function st)"
proof -
  from assms have ne: "st \<noteq> []" by (auto simp: candOK_def)
  then have "hd (map Function st) = Function (hd st)" "last (map Function st) = Function (last st)"
    by (simp_all add: hd_map last_map)
  moreover have "butlast (tl (map Function st)) = map Function (butlast (tl st))"
    by (simp add: map_butlast map_tl)
  ultimately show ?thesis using assms ne
    by (auto simp: candOK_def witnessPath_def entryPath_def entriesOf_set linked_callPath)
qed

lemma CallStacksIn_apply:
  "CallStacksIn rk sched res v = (if v \<in> set sched then Some (callStack (rk v) v res) else None)"
proof -
  have "foldl (\<lambda>m x. m(x \<mapsto> g x)) m0 sched v = (if v \<in> set sched then Some (g v) else m0 v)"
    for g :: "Vuln \<Rightarrow> CallStack option" and m0
    by (induction sched arbitrary: m0) auto
  then show ?thesis by (simp add: CallStacksIn_def)
qed

section \<open>Well-formed call stacks\<close>

definition stChain :: CallStack where
  "stChain = [\<lparr>Function = fEntry, Call = Some csEA\<rparr>, \<lparr>Function = fA, Call = Some csAB\<rparr>,
              \<lparr>Function = fB, Call = Some csBS\<rparr>, \<lparr>Function = fSink, Call = None\<rparr>]"

lemma callStack_rChain: "callStack insertionOrder vChain rChain = Some stChain"
  by code_simp

text \<open>
  Claim C5. Every call stack that \<open>callStack\<close> returns is well formed: it is not empty,
  its first function is an entry function of the result, its last function is the call
  sink of the vulnerability and carries no call site, and every frame before the last
  carries a call site whose caller is the function of that frame and which is a call
  site of (a call into) the function of the next frame.
\<close>

theorem C5_stack_well_formed:
  assumes "callStack rank vuln res = Some st"
  shows "st \<noteq> []
       \<and> Function (hd st) \<in> set (EntryFunctions res)
       \<and> CallSink vuln = Some (Function (last st))
       \<and> Call (last st) = None
       \<and> (\<forall>i. Suc i < length st \<longrightarrow>
            (\<exists>cs. Call (st ! i) = Some cs \<and> Parent cs = Function (st ! i)
                 \<and> cs \<in> set (CallSites res (Function (st ! Suc i)))))"
proof -
  from assms obtain snk where snk: "CallSink vuln = Some snk"
    and ok: "candOK res (entriesOf res) (skipSymbolsOf vuln res) snk st"
    by (rule callStack_candOK)
  from ok have ne: "st \<noteq> []" and l: "linked res st" by (auto simp: candOK_def)
  from ok have "Function (hd st) \<in> set (EntryFunctions res)"
    by (simp add: candOK_def entriesOf_set)
  moreover from ok snk have "CallSink vuln = Some (Function (last st))" by (simp add: candOK_def)
  moreover from l ne have "Call (last st) = None" by (rule linked_last)
  ultimately show ?thesis using ne linked_nth [OF l] by blast
qed

theorem C5_stack_well_formed_witness:
  "callStack insertionOrder vChain rChain = Some stChain
   \<and> stChain \<noteq> []
   \<and> Function (hd stChain) \<in> set (EntryFunctions rChain)
   \<and> CallSink vChain = Some (Function (last stChain))
   \<and> Call (last stChain) = None
   \<and> (\<exists>cs. Call (stChain ! 2) = Some cs \<and> Parent cs = Function (stChain ! 2)
          \<and> cs \<in> set (CallSites rChain (Function (stChain ! 3))))"
proof -
  have "Suc 2 < length stChain" by (simp add: stChain_def)
  with C5_stack_well_formed [OF callStack_rChain] callStack_rChain show ?thesis
    by (simp add: eval_nat_numeral)
qed

section \<open>Sinks that no entry function reaches\<close>

lemma callStack_None_unreachable:
  assumes "CallSink vuln = Some snk" "\<forall>vs. \<not> witnessPath res vuln snk vs"
  shows "callStack rk vuln res = None"
proof (cases "callStack rk vuln res")
  case None
  then show ?thesis .
next
  case (Some st)
  then obtain snk' where "CallSink vuln = Some snk'"
    and "candOK res (entriesOf res) (skipSymbolsOf vuln res) snk' st"
    by (rule callStack_candOK)
  with assms(1) have "witnessPath res vuln snk (map Function st)"
    by (auto dest: candOK_witnessPath)
  with assms(2) show ?thesis by blast
qed

lemma callPath_closed:
  assumes "callPath res vs" "vs \<noteq> []" "last vs \<in> R"
    and "\<forall>g \<in> R. \<forall>cs \<in> set (CallSites res g). Parent cs \<in> R"
  shows "set vs \<subseteq> R"
  using assms
proof (induction res vs rule: callPath.induct)
  case (3 res x y zs)
  then have "set (y # zs) \<subseteq> R" by simp
  moreover with 3 have "x \<in> R" by auto
  ultimately show ?case by simp
qed simp_all

lemma closed_no_witnessPath:
  assumes "snk \<in> R" "\<forall>g \<in> R. \<forall>cs \<in> set (CallSites res g). Parent cs \<in> R"
    and "\<forall>e \<in> set (EntryFunctions res). e \<in> R \<longrightarrow> e = snk"
  shows "\<not> witnessPath res vuln snk vs"
proof
  assume w: "witnessPath res vuln snk vs"
  then have "callPath res vs" "vs \<noteq> []" "last vs \<in> R"
    using assms(1) by (auto simp: witnessPath_def entryPath_def)
  then have "set vs \<subseteq> R" using assms(2) by (rule callPath_closed)
  with w have "hd vs \<in> R" by (auto simp: witnessPath_def entryPath_def)
  with w assms(3) show False by (auto simp: witnessPath_def entryPath_def)
qed

text \<open>An isolated sink: \<open>b\<close> calls the sink, nothing calls \<open>b\<close>; \<open>entry\<close> calls \<open>a\<close>.\<close>

definition rIsolated :: Result where
  "rIsolated = \<lparr>EntryFunctions = [fEntry], Vulns = [vChain],
                 CallGraph = [(fA, [csEA]), (fSink, [csBS])]\<rparr>"

lemma rIsolated_no_path: "\<not> witnessPath rIsolated vChain fSink vs"
proof (rule closed_no_witnessPath [where R = "{fSink, fB}"])
  show "fSink \<in> {fSink, fB}" by simp
  show "\<forall>g \<in> {fSink, fB}. \<forall>cs \<in> set (CallSites rIsolated g). Parent cs \<in> {fSink, fB}"
    by (simp add: CallSites_def rIsolated_def csBS_def fA_def fB_def fSink_def)
  show "\<forall>e \<in> set (EntryFunctions rIsolated). e \<in> {fSink, fB} \<longrightarrow> e = fSink"
    by (simp add: rIsolated_def fEntry_def fB_def fSink_def)
qed

text \<open>A sink that is the only entry function and has no caller.\<close>

definition rSinkOnly :: Result where
  "rSinkOnly = \<lparr>EntryFunctions = [fSink], Vulns = [vChain], CallGraph = []\<rparr>"

lemma rSinkOnly_no_path: "\<not> witnessPath rSinkOnly vChain fSink vs"
  by (rule closed_no_witnessPath [where R = "{fSink}"]) (simp_all add: CallSites_def rSinkOnly_def)

text \<open>
  Claim C6. For a vulnerability with a call sink that no entry function reaches (there
  is no path of at least one call from an entry function other than the sink down to the
  sink, even less one that avoids the skipped symbols), \<open>callStack\<close> returns nil, and
  the mapping of \<open>CallStacks\<close> holds the vulnerability with a nil stack, whatever the
  order of the tasks and of the maps. The model has no error to raise: \<open>callStack\<close> is a
  total function, its loop ends on every input.
\<close>

theorem C6_unreachable_sink_nil:
  assumes "CallSink vuln = Some snk" "\<forall>vs. \<not> witnessPath res vuln snk vs"
  shows "callStack rank vuln res = None
       \<and> (vuln \<in> set sched \<longrightarrow> CallStacksIn ranks sched res vuln = Some None)"
  using callStack_None_unreachable [OF assms] by (simp add: CallStacksIn_apply)

theorem C6_unreachable_sink_nil_witness:
  "CallSink vChain = Some fSink
   \<and> callStack insertionOrder vChain rIsolated = None
   \<and> vChain \<in> set (Vulns rIsolated)
   \<and> CallStacksIn (\<lambda>v. insertionOrder) (Vulns rIsolated) rIsolated vChain = Some None"
proof -
  have s: "CallSink vChain = Some fSink" by (simp add: vChain_def)
  have v: "vChain \<in> set (Vulns rIsolated)" by (simp add: rIsolated_def)
  have n: "\<forall>vs. \<not> witnessPath rIsolated vChain fSink vs" by (simp add: rIsolated_no_path)
  from C6_unreachable_sink_nil [OF s n, of insertionOrder "Vulns rIsolated" "\<lambda>v. insertionOrder"] s v
  show ?thesis by simp
qed

section \<open>No stack of one frame\<close>

text \<open>
  Claim C10. Every stack that \<open>callStack\<close> returns has at least two frames, and its
  first function is not the sink. So when the call sink is itself an entry function and
  no other entry function reaches it, the path of the sink alone exists, yet the result
  is nil and not a stack of one frame.
\<close>

theorem C10_at_least_two_frames:
  "(\<forall>st. callStack rank vuln res = Some st \<longrightarrow>
        2 \<le> length st \<and> Function (hd st) \<noteq> Function (last st))
   \<and> (CallSink vuln = Some snk \<longrightarrow> snk \<in> set (EntryFunctions res)
        \<longrightarrow> (\<forall>vs. \<not> witnessPath res vuln snk vs)
        \<longrightarrow> entryPath res vuln snk [snk] \<and> callStack rank vuln res = None)"
proof (intro conjI allI impI)
  fix st assume "callStack rank vuln res = Some st"
  then obtain snk' where "candOK res (entriesOf res) (skipSymbolsOf vuln res) snk' st"
    by (rule callStack_candOK)
  then show "2 \<le> length st" "Function (hd st) \<noteq> Function (last st)"
    by (simp_all add: candOK_def)
next
  assume "snk \<in> set (EntryFunctions res)"
  then show "entryPath res vuln snk [snk]" by (simp add: entryPath_def)
next
  assume "CallSink vuln = Some snk" "\<forall>vs. \<not> witnessPath res vuln snk vs"
  then show "callStack rank vuln res = None" by (rule callStack_None_unreachable)
qed

theorem C10_at_least_two_frames_witness:
  "callStack insertionOrder vChain rChain = Some stChain
   \<and> 2 \<le> length stChain \<and> Function (hd stChain) \<noteq> Function (last stChain)
   \<and> CallSink vChain = Some fSink \<and> fSink \<in> set (EntryFunctions rSinkOnly)
   \<and> entryPath rSinkOnly vChain fSink [fSink]
   \<and> callStack insertionOrder vChain rSinkOnly = None"
proof -
  have s: "CallSink vChain = Some fSink" by (simp add: vChain_def)
  have e: "fSink \<in> set (EntryFunctions rSinkOnly)" by (simp add: rSinkOnly_def)
  have n: "\<forall>vs. \<not> witnessPath rSinkOnly vChain fSink vs" by (simp add: rSinkOnly_no_path)
  from C10_at_least_two_frames [of insertionOrder vChain rChain fSink]
    C10_at_least_two_frames [of insertionOrder vChain rSinkOnly fSink]
    callStack_rChain s e n
  show ?thesis by simp
qed

section \<open>The states of the loop\<close>

lemma sound_funpow: "sound res en sk snk ((step res rk en sk ^^ n) (initSearch snk))"
  by (induction n) (simp_all add: sound_init sound_step)

lemma step_empty: "queue s = [] \<Longrightarrow> step res rk en sk s = s"
  by (simp add: step_def)

lemma bfs_funpow: "\<exists>n. bfs res rk en sk s = (step res rk en sk ^^ n) s"
proof (induction res rk en sk s rule: bfs.induct)
  case (1 res rank entries skipSymbols s)
  show ?case
  proof (cases "queue s = []")
    case True
    then have "bfs res rank entries skipSymbols s = (step res rank entries skipSymbols ^^ 0) s"
      by (simp add: bfs_done)
    then show ?thesis by blast
  next
    case False
    from "1.IH" [OF False] obtain n where
      "bfs res rank entries skipSymbols (step res rank entries skipSymbols s)
         = (step res rank entries skipSymbols ^^ n) (step res rank entries skipSymbols s)" by blast
    with False have "bfs res rank entries skipSymbols s = (step res rank entries skipSymbols ^^ Suc n) s"
      by (simp add: bfs_step funpow_swap1)
    then show ?thesis by blast
  qed
qed

section \<open>No witness through a sibling sink\<close>

text \<open>
  Siblings: the sink \<open>b\<close> of a second vulnerability of the same OSV entry and import sink
  lies on the chain; \<open>a\<close> also calls the sink itself.
\<close>

definition csAS :: CallSite where
  "csAS = \<lparr>Parent = fA, Name = ''sink'', RecvType = '''', Pos = mkPos 22, Resolved = True\<rparr>"

definition vSibling :: Vuln where
  "vSibling = \<lparr>VulnID = 1, OSV = Some 0, CallSink = Some fB, ImportSink = Some 0\<rparr>"

definition rSiblings :: Result where
  "rSiblings = \<lparr>EntryFunctions = [fEntry], Vulns = [vChain, vSibling],
                 CallGraph = [(fA, [csEA]), (fB, [csAB]), (fSink, [csBS, csAS])]\<rparr>"

definition stSiblings :: CallStack where
  "stSiblings = [\<lparr>Function = fEntry, Call = Some csEA\<rparr>, \<lparr>Function = fA, Call = Some csAS\<rparr>,
                 \<lparr>Function = fSink, Call = None\<rparr>]"

lemma callStack_rSiblings: "callStack insertionOrder vChain rSiblings = Some stSiblings"
  by code_simp

lemma queue_rSiblings:
  "map cc_f (queue ((step rSiblings insertionOrder (entriesOf rSiblings) (skipSymbolsOf vChain rSiblings) ^^ 1)
      (initSearch fSink))) = [fA]"
  by code_simp

text \<open>
  Claim C4. Let \<open>v2\<close> be another vulnerability of the result with the OSV entry and the
  import sink of \<open>vuln\<close>, and \<open>snk2\<close> its call sink. Then no frame strictly between the
  first and the last frame of the stack returned for \<open>vuln\<close> is a frame of \<open>snk2\<close>, and
  after any number of iterations of the loop no chain of the queue that was pushed by
  the loop (a chain with a child: every chain but the initial chain of the sink of
  \<open>vuln\<close> itself) is a chain of \<open>snk2\<close>. The first frame is not covered: a sibling sink
  that is an entry function may be the endpoint of a candidate.
\<close>

theorem C4_no_sibling_sink_inside:
  assumes "CallSink vuln = Some snk"
    and "v2 \<in> set (Vulns res)" "v2 \<noteq> vuln" "OSV v2 = OSV vuln" "ImportSink v2 = ImportSink vuln"
    and "CallSink v2 = Some snk2"
  shows "(\<forall>st. callStack rank vuln res = Some st \<longrightarrow>
            (\<forall>i. 0 < i \<and> Suc i < length st \<longrightarrow> Function (st ! i) \<noteq> snk2))
       \<and> (\<forall>n. \<forall>c \<in> set (queue ((step res rank (entriesOf res) (skipSymbolsOf vuln res) ^^ n)
                                  (initSearch snk))).
            cc_child c \<noteq> None \<longrightarrow> cc_f c \<noteq> snk2)"
proof (intro conjI allI impI ballI)
  have sk: "skipSymbolsOf vuln res snk2"
    using assms(2-6) by (auto simp: skipSymbolsOf_set sibling_def)
  {
    fix st i assume st: "callStack rank vuln res = Some st" and i: "0 < i \<and> Suc i < length st"
    from st obtain snk' where ok: "candOK res (entriesOf res) (skipSymbolsOf vuln res) snk' st"
      by (rule callStack_candOK)
    from i have "st ! i \<in> set (butlast (tl st))"
      by (cases st) (auto simp: in_set_conv_nth nth_butlast intro!: exI [where x = "i - 1"])
    with ok have "\<not> skipSymbolsOf vuln res (Function (st ! i))" by (simp add: candOK_def)
    with sk show "Function (st ! i) \<noteq> snk2" by auto
  }
  {
    fix n c
    assume c: "c \<in> set (queue ((step res rank (entriesOf res) (skipSymbolsOf vuln res) ^^ n) (initSearch snk)))"
      and ch: "cc_child c \<noteq> None"
    from sound_funpow [where res = res and en = "entriesOf res" and sk = "skipSymbolsOf vuln res"
        and snk = snk and rk = rank and n = n] c
    have ok: "chainOK res (skipSymbolsOf vuln res) snk c" by (simp add: sound_def)
    from ch obtain c' where "cc_child c = Some c'" by auto
    then have "\<lparr>Function = cc_f c, Call = cc_call c\<rparr> \<in> set (butlast (CallStack (Some c)))"
      by (simp add: CallStack_Some [of c])
    with ok have "\<not> skipSymbolsOf vuln res (cc_f c)" by (auto simp: chainOK_def)
    with sk show "cc_f c \<noteq> snk2" by auto
  }
qed


theorem C4_no_sibling_sink_inside_witness:
  "CallSink vChain = Some fSink
   \<and> vSibling \<in> set (Vulns rSiblings) \<and> vSibling \<noteq> vChain \<and> OSV vSibling = OSV vChain
   \<and> ImportSink vSibling = ImportSink vChain \<and> CallSink vSibling = Some fB
   \<and> callStack insertionOrder vChain rSiblings = Some stSiblings
   \<and> Function (stSiblings ! 1) \<noteq> fB
   \<and> map cc_f (queue ((step rSiblings insertionOrder (entriesOf rSiblings)
                          (skipSymbolsOf vChain rSiblings) ^^ 1) (initSearch fSink))) = [fA]
   \<and> fA \<noteq> fB"
proof -
  have h: "CallSink vChain = Some fSink" "vSibling \<in> set (Vulns rSiblings)" "vSibling \<noteq> vChain"
      "OSV vSibling = OSV vChain" "ImportSink vSibling = ImportSink vChain"
      "CallSink vSibling = Some fB"
    by (simp_all add: vChain_def vSibling_def rSiblings_def)
  have i: "0 < (1::nat) \<and> Suc 1 < length stSiblings" by (simp add: stSiblings_def)
  have "fA \<noteq> fB" by (simp add: fA_def fB_def)
  with C4_no_sibling_sink_inside [OF h, of insertionOrder] callStack_rSiblings i h queue_rSiblings
  show ?thesis by blast
qed

section \<open>Every function is expanded once\<close>

text \<open>
  \<open>expands s\<close>: the next iteration of the loop expands the function at the front of the
  queue (the queue is not empty and the function has not been seen).
\<close>

definition expands :: "search \<Rightarrow> bool" where
  "expands s = (queue s \<noteq> [] \<and> \<not> seen s (cc_f (hd (queue s))))"

lemma seen_step_mono: "seen s x \<Longrightarrow> seen (step res rk en sk s) x"
  by (cases "queue s") (auto simp: step_def Let_def seen_foldl_expandSite)

lemma seen_funpow_mono: "seen s x \<Longrightarrow> seen ((step res rk en sk ^^ n) s) x"
  by (induction n) (simp_all add: seen_step_mono)

lemma expands_seen: "expands s \<Longrightarrow> seen (step res rk en sk s) (cc_f (hd (queue s)))"
  by (cases "queue s") (auto simp: expands_def step_def Let_def seen_foldl_expandSite)

text \<open>
  A diamond: \<open>a\<close> and \<open>b\<close> call the sink, \<open>x\<close> calls both, \<open>entry\<close> calls \<open>x\<close>. The
  function \<open>x\<close> is pushed twice, by \<open>a\<close> and by \<open>b\<close>, before it is removed once.
\<close>

definition fX :: FuncNode where
  "fX = \<lparr>FuncID = 4, FuncString = ''main.x'', FuncPos = mkPos 50\<rparr>"

definition csXA :: CallSite where
  "csXA = \<lparr>Parent = fX, Name = ''a'', RecvType = '''', Pos = mkPos 51, Resolved = True\<rparr>"

definition csXB :: CallSite where
  "csXB = \<lparr>Parent = fX, Name = ''b'', RecvType = '''', Pos = mkPos 52, Resolved = True\<rparr>"

definition csEX :: CallSite where
  "csEX = \<lparr>Parent = fEntry, Name = ''x'', RecvType = '''', Pos = mkPos 13, Resolved = True\<rparr>"

definition rDiamond :: Result where
  "rDiamond = \<lparr>EntryFunctions = [fEntry], Vulns = [vChain],
                CallGraph = [(fSink, [csAS, csBS]), (fA, [csXA]), (fB, [csXB]), (fX, [csEX])]\<rparr>"

text \<open>The state of the search of the diamond after \<open>n\<close> iterations.\<close>

definition diamondAfter :: "nat \<Rightarrow> search" where
  "diamondAfter n =
     (step rDiamond insertionOrder (entriesOf rDiamond) (skipSymbolsOf vChain rDiamond) ^^ n)
       (initSearch fSink)"

lemma step_not_expands:
  "\<not> expands s \<Longrightarrow> step res rk en sk s = s\<lparr>queue := tl (queue s)\<rparr>"
  by (cases "queue s") (auto simp: expands_def step_def)

lemma seen_funpow_later:
  assumes "i < j" "expands ((step res rk en sk ^^ i) s)"
  shows "seen ((step res rk en sk ^^ j) s) (cc_f (hd (queue ((step res rk en sk ^^ i) s))))"
proof -
  define g where "g = cc_f (hd (queue ((step res rk en sk ^^ i) s)))"
  from assms(1) obtain k where k: "j = k + Suc i" by (metis less_iff_Suc_add add.commute add_Suc_right)
  from assms(2) have "seen ((step res rk en sk ^^ Suc i) s) g"
    by (simp add: g_def expands_seen)
  then have "seen ((step res rk en sk ^^ k) ((step res rk en sk ^^ Suc i) s)) g"
    by (rule seen_funpow_mono)
  then show ?thesis unfolding k funpow_add g_def by simp
qed

lemma diamond_run:
  "map cc_f (queue (diamondAfter 3)) = [fX, fX]
   \<and> expands (diamondAfter 3)
   \<and> map cc_f (queue (diamondAfter 4)) = [fX, fEntry]
   \<and> \<not> expands (diamondAfter 4)
   \<and> map cc_f (queue (diamondAfter 5)) = [fEntry]
   \<and> candidates (diamondAfter 5) = candidates (diamondAfter 4)"
  by code_simp

text \<open>
  Claim C7. An iteration of the loop that does not expand (the queue is empty, or the
  function at its front is already in \<open>seen\<close>) only removes the front of the queue:
  \<open>seen\<close>, the candidates and the rest of the queue stay as they are, so nothing is
  expanded. An iteration that expands marks its function, and a mark is never removed.
  Hence two different iterations that expand a function expand different functions, and
  when a function that was expanded comes to the front of the queue again, that iteration
  only removes it. The call sites that \<open>callsites\<close> returns all have a caller that is
  not visited. The result of the loop is the state after some number of iterations.
\<close>

theorem C7_expanded_at_most_once:
  "(\<not> expands s \<longrightarrow> step res rank en sk s = s\<lparr>queue := tl (queue s)\<rparr>)
   \<and> (expands s \<longrightarrow> seen (step res rank en sk s) (cc_f (hd (queue s))))
   \<and> (\<forall>x. seen s x \<longrightarrow> seen (step res rank en sk s) x)
   \<and> (\<forall>i j. i < j
        \<longrightarrow> expands ((step res rank en sk ^^ i) s) \<longrightarrow> expands ((step res rank en sk ^^ j) s)
        \<longrightarrow> cc_f (hd (queue ((step res rank en sk ^^ i) s)))
            \<noteq> cc_f (hd (queue ((step res rank en sk ^^ j) s))))
   \<and> (\<forall>i j. i < j
        \<longrightarrow> expands ((step res rank en sk ^^ i) s)
        \<longrightarrow> cc_f (hd (queue ((step res rank en sk ^^ j) s)))
            = cc_f (hd (queue ((step res rank en sk ^^ i) s)))
        \<longrightarrow> (step res rank en sk ^^ Suc j) s
            = ((step res rank en sk ^^ j) s)\<lparr>queue := tl (queue ((step res rank en sk ^^ j) s))\<rparr>)
   \<and> (\<forall>cs \<in> set (callsites rk sites visited). \<not> visited (Parent cs))
   \<and> (\<exists>n. bfs res rank en sk s = (step res rank en sk ^^ n) s)"
proof (intro conjI allI impI ballI)
  assume "\<not> expands s"
  then show "step res rank en sk s = s\<lparr>queue := tl (queue s)\<rparr>" by (rule step_not_expands)
next
  assume "expands s"
  then show "seen (step res rank en sk s) (cc_f (hd (queue s)))" by (rule expands_seen)
next
  fix x assume "seen s x"
  then show "seen (step res rank en sk s) x" by (rule seen_step_mono)
next
  fix i j :: nat
  assume ij: "i < j" and ei: "expands ((step res rank en sk ^^ i) s)"
    and ej: "expands ((step res rank en sk ^^ j) s)"
  from seen_funpow_later [OF ij ei] ej
  show "cc_f (hd (queue ((step res rank en sk ^^ i) s)))
      \<noteq> cc_f (hd (queue ((step res rank en sk ^^ j) s)))"
    unfolding expands_def by auto
next
  fix i j :: nat
  assume ij: "i < j" and ei: "expands ((step res rank en sk ^^ i) s)"
    and eq: "cc_f (hd (queue ((step res rank en sk ^^ j) s)))
        = cc_f (hd (queue ((step res rank en sk ^^ i) s)))"
  from seen_funpow_later [OF ij ei] eq have "\<not> expands ((step res rank en sk ^^ j) s)"
    by (simp add: expands_def)
  then show "(step res rank en sk ^^ Suc j) s
      = ((step res rank en sk ^^ j) s)\<lparr>queue := tl (queue ((step res rank en sk ^^ j) s))\<rparr>"
    by (simp add: step_not_expands)
next
  fix cs assume "cs \<in> set (callsites rk sites visited)"
  then show "\<not> visited (Parent cs)" by (rule callsites_unvisited)
next
  show "\<exists>n. bfs res rank en sk s = (step res rank en sk ^^ n) s" by (rule bfs_funpow)
qed

theorem C7_expanded_at_most_once_witness:
  "(3::nat) < 4
   \<and> expands (diamondAfter 3) \<and> cc_f (hd (queue (diamondAfter 3))) = fX
   \<and> \<not> expands (diamondAfter 4) \<and> cc_f (hd (queue (diamondAfter 4))) = fX
   \<and> diamondAfter (Suc 4) = (diamondAfter 4)\<lparr>queue := tl (queue (diamondAfter 4))\<rparr>
   \<and> map cc_f (queue (diamondAfter 5)) = [fEntry]
   \<and> csBS \<in> set (callsites (insertionOrder fSink) [csBS] (\<lambda>fn. fn = fSink))
   \<and> Parent csBS \<noteq> fSink"
proof -
  have h: "map cc_f (queue (diamondAfter 3)) = [fX, fX]" "expands (diamondAfter 3)"
    "map cc_f (queue (diamondAfter 4)) = [fX, fEntry]" "\<not> expands (diamondAfter 4)"
    "map cc_f (queue (diamondAfter 5)) = [fEntry]"
    using diamond_run by simp_all
  from h(1) have h3: "cc_f (hd (queue (diamondAfter 3))) = fX"
    by (cases "queue (diamondAfter 3)") auto
  from h(3) have h4: "cc_f (hd (queue (diamondAfter 4))) = fX"
    by (cases "queue (diamondAfter 4)") auto
  have lt: "(3::nat) < 4" by simp
  note inst = C7_expanded_at_most_once [of "diamondAfter 0" rDiamond insertionOrder "entriesOf rDiamond"
      "skipSymbolsOf vChain rDiamond" "insertionOrder fSink" "[csBS]" "\<lambda>fn. fn = fSink"]
  have s: "(step rDiamond insertionOrder (entriesOf rDiamond) (skipSymbolsOf vChain rDiamond) ^^ n)
      (diamondAfter 0) = diamondAfter n" for n
    by (simp add: diamondAfter_def)
  from inst have "\<forall>i j. i < j \<longrightarrow> expands (diamondAfter i)
      \<longrightarrow> cc_f (hd (queue (diamondAfter j))) = cc_f (hd (queue (diamondAfter i)))
      \<longrightarrow> diamondAfter (Suc j) = (diamondAfter j)\<lparr>queue := tl (queue (diamondAfter j))\<rparr>"
    unfolding s by blast
  with lt h(2) h3 h4
  have pop: "diamondAfter (Suc 4) = (diamondAfter 4)\<lparr>queue := tl (queue (diamondAfter 4))\<rparr>"
    by metis
  from inst have "\<forall>cs \<in> set (callsites (insertionOrder fSink) [csBS] (\<lambda>fn. fn = fSink)).
      Parent cs \<noteq> fSink" by blast
  moreover have "csBS \<in> set (callsites (insertionOrder fSink) [csBS] (\<lambda>fn. fn = fSink))"
    by code_simp
  ultimately show ?thesis using lt h h3 h4 pop by blast
qed

section \<open>The stack of least weight\<close>

text \<open>
  With the comparator of \<open>callStack\<close>, which also holds between stacks of equal weight,
  the insertion sort leaves the candidates in ascending order of weight.
\<close>

lemma insertBack_sorted:
  assumes "sorted_wrt (\<lambda>a b. weight b \<le> weight a) rp"
  shows "sorted_wrt (\<lambda>a b. weight b \<le> weight a) (insertBack stackLess x rp)"
  using assms
proof (induction rp)
  case Nil
  then show ?case by simp
next
  case (Cons y rp)
  show ?case
  proof (cases "stackLess x y")
    case True
    then have "weight x \<le> weight y" by (auto simp: stackLess_def Let_def split: if_splits)
    with Cons True show ?thesis by (auto simp: set_insertBack)
  next
    case False
    then have "weight y < weight x" by (auto simp: stackLess_def Let_def split: if_splits)
    with Cons False show ?thesis by auto
  qed
qed

lemma foldl_insertBack_sorted:
  "sorted_wrt (\<lambda>a b. weight b \<le> weight a) acc \<Longrightarrow>
   sorted_wrt (\<lambda>a b. weight b \<le> weight a) (foldl (\<lambda>rp x. insertBack stackLess x rp) acc xs)"
  by (induction xs arbitrary: acc) (simp_all add: insertBack_sorted)

lemma sliceStable_stackLess_sorted:
  "sorted_wrt (\<lambda>a b. weight a \<le> weight b) (sliceStable stackLess xs)"
proof -
  have "sorted_wrt (\<lambda>a b. weight b \<le> weight a) (foldl (\<lambda>rp x. insertBack stackLess x rp) [] xs)"
    by (rule foldl_insertBack_sorted) simp
  then show ?thesis by (simp add: sliceStable_def sorted_wrt_rev)
qed

lemma sliceStable_stackLess_head:
  assumes "sliceStable stackLess xs = y # ys" "x \<in> set xs"
  shows "weight y \<le> weight x"
proof -
  from assms(2) have "x \<in> set (sliceStable stackLess xs)" by (simp add: set_sliceStable)
  with sliceStable_stackLess_sorted [of xs] assms(1) show ?thesis by auto
qed

text \<open>
  Two paths of two calls: the call of \<open>a\<close> into the sink is dynamic, the call of \<open>b\<close>
  into the sink is resolved.
\<close>

definition csEB :: CallSite where
  "csEB = \<lparr>Parent = fEntry, Name = ''b'', RecvType = '''', Pos = mkPos 12, Resolved = True\<rparr>"

definition csASdyn :: CallSite where
  "csASdyn = \<lparr>Parent = fA, Name = ''sink'', RecvType = ''I'', Pos = mkPos 22, Resolved = False\<rparr>"

definition rTwoPaths :: Result where
  "rTwoPaths = \<lparr>EntryFunctions = [fEntry], Vulns = [vChain],
                 CallGraph = [(fA, [csEA]), (fB, [csEB]), (fSink, [csASdyn, csBS])]\<rparr>"

definition stViaA :: CallStack where
  "stViaA = [\<lparr>Function = fEntry, Call = Some csEA\<rparr>, \<lparr>Function = fA, Call = Some csASdyn\<rparr>,
             \<lparr>Function = fSink, Call = None\<rparr>]"

definition stViaB :: CallStack where
  "stViaB = [\<lparr>Function = fEntry, Call = Some csEB\<rparr>, \<lparr>Function = fB, Call = Some csBS\<rparr>,
             \<lparr>Function = fSink, Call = None\<rparr>]"

lemma rTwoPaths_run:
  "callStack insertionOrder vChain rTwoPaths = Some stViaB
   \<and> candidates (bfs rTwoPaths insertionOrder (entriesOf rTwoPaths) (skipSymbolsOf vChain rTwoPaths)
        (initSearch fSink)) = [stViaA, stViaB]
   \<and> weight stViaA = 1 \<and> weight stViaB = 0"
  by code_simp

text \<open>
  Claim C2. The stack returned is one of the candidates that the search collected; all
  candidates have its length (they are the shortest stacks found), and none of them has
  a smaller weight, the weight being the number of frames whose call site is present and
  not resolved.
\<close>

theorem C2_minimum_weight:
  assumes "callStack rank vuln res = Some st" "CallSink vuln = Some snk"
  shows "st \<in> set (candidates (bfs res rank (entriesOf res) (skipSymbolsOf vuln res) (initSearch snk)))
       \<and> (\<forall>c \<in> set (candidates (bfs res rank (entriesOf res) (skipSymbolsOf vuln res) (initSearch snk))).
            length c = length st \<and> weight st \<le> weight c)"
proof -
  define s where "s = bfs res rank (entriesOf res) (skipSymbolsOf vuln res) (initSearch snk)"
  from assms obtain rest where st: "st \<in> set (candidates s)"
    and srt: "sliceStable stackLess (candidates s) = st # rest"
    unfolding s_def by (auto elim!: callStack_SomeD)
  have snd: "sound res (entriesOf res) (skipSymbolsOf vuln res) snk s"
    unfolding s_def by (rule sound_bfs)
  have "length c = length st \<and> weight st \<le> weight c" if "c \<in> set (candidates s)" for c
    using snd st that sliceStable_stackLess_head [OF srt that] by (simp add: sound_def)
  with st show ?thesis unfolding s_def by blast
qed

theorem C2_minimum_weight_witness:
  "callStack insertionOrder vChain rTwoPaths = Some stViaB \<and> CallSink vChain = Some fSink
   \<and> candidates (bfs rTwoPaths insertionOrder (entriesOf rTwoPaths) (skipSymbolsOf vChain rTwoPaths)
        (initSearch fSink)) = [stViaA, stViaB]
   \<and> length stViaA = length stViaB \<and> weight stViaB \<le> weight stViaA
   \<and> weight stViaA = 1 \<and> weight stViaB = 0"
proof -
  have s: "CallSink vChain = Some fSink" by (simp add: vChain_def)
  from rTwoPaths_run have c: "callStack insertionOrder vChain rTwoPaths = Some stViaB" by simp
  from C2_minimum_weight [OF c s] rTwoPaths_run s show ?thesis by simp
qed

section \<open>Shortest witnesses\<close>

text \<open>
  The level of a chain is the number of its frames; \<open>pushed c cs\<close> is the chain that the
  loop builds for the call site \<open>cs\<close> of the function of \<open>c\<close>.
\<close>

definition level :: "callChain \<Rightarrow> nat" where
  "level c = length (CallStack (Some c))"

definition pushed :: "callChain \<Rightarrow> CallSite \<Rightarrow> callChain" where
  "pushed c cs = CallChain (Some cs) (Parent cs) (Some c)"

lemma level_pushed [simp]: "level (pushed c cs) = Suc (level c)"
  by (simp add: level_def pushed_def)

lemma cc_f_pushed [simp]: "cc_f (pushed c cs) = Parent cs"
  by (simp add: pushed_def)

lemma level_pos: "0 < level c"
  by (simp add: level_def)

lemma expandSite_no_entry:
  "\<not> en (Parent cs) \<Longrightarrow>
   expandSite en sk c s cs = s\<lparr>queue := queue s @ (if sk (Parent cs) then [] else [pushed c cs])\<rparr>"
  by (simp add: expandSite_def pushed_def)

lemma foldl_expandSite_no_entry:
  "\<forall>cs \<in> set css. \<not> en (Parent cs) \<Longrightarrow>
   foldl (expandSite en sk c) s css
     = s\<lparr>queue := queue s @ map (pushed c) (filter (\<lambda>cs. \<not> sk (Parent cs)) css)\<rparr>"
proof (induction css arbitrary: s)
  case Nil
  then show ?case by simp
next
  case (Cons cs css)
  then show ?case by (simp add: expandSite_no_entry)
qed

lemma expandSite_keeps_candidates:
  "candidates s \<noteq> [] \<Longrightarrow>
   candidates (expandSite en sk c s cs) \<noteq> [] \<and> candDepth (expandSite en sk c s cs) = candDepth s"
  by (simp add: expandSite_def Let_def)

lemma foldl_expandSite_keeps_candidates:
  "candidates s \<noteq> [] \<Longrightarrow>
   candidates (foldl (expandSite en sk c) s css) \<noteq> []
   \<and> candDepth (foldl (expandSite en sk c) s css) = candDepth s"
proof (induction css arbitrary: s)
  case Nil
  then show ?case by simp
next
  case (Cons cs css)
  from expandSite_keeps_candidates [OF Cons.prems, of en sk c cs]
    Cons.IH [of "expandSite en sk c s cs"]
  show ?case by simp
qed

lemma expandSite_first_candidate:
  "candidates s = [] \<Longrightarrow> en (Parent cs) \<Longrightarrow>
   candidates (expandSite en sk c s cs) \<noteq> [] \<and> candDepth (expandSite en sk c s cs) = Suc (level c)"
  by (simp add: expandSite_def Let_def level_def)

lemma foldl_expandSite_first_candidate:
  "candidates s = [] \<Longrightarrow> \<exists>cs \<in> set css. en (Parent cs) \<Longrightarrow>
   candidates (foldl (expandSite en sk c) s css) \<noteq> []
   \<and> candDepth (foldl (expandSite en sk c) s css) = Suc (level c)"
proof (induction css arbitrary: s)
  case Nil
  then show ?case by simp
next
  case (Cons cs css)
  show ?case
  proof (cases "en (Parent cs)")
    case True
    from expandSite_first_candidate [where en = en and cs = cs and s = s and sk = sk and c = c]
      Cons.prems(1) True
      foldl_expandSite_keeps_candidates [of "expandSite en sk c s cs" en sk c css]
    show ?thesis by simp
  next
    case False
    with Cons.prems have "\<exists>cs \<in> set css. en (Parent cs)" by auto
    moreover from False Cons.prems(1) have "candidates (expandSite en sk c s cs) = []"
      by (simp add: expandSite_no_entry)
    ultimately show ?thesis using Cons.IH [of "expandSite en sk c s cs"] by simp
  qed
qed

text \<open>
  A witness path read from the sink upwards: \<open>ws ! 0\<close> is the sink, every next function
  calls the one before, the last one is an entry function other than the sink, and no
  function strictly inside is a skipped symbol.
\<close>

definition revPath ::
  "Result \<Rightarrow> (FuncNode \<Rightarrow> bool) \<Rightarrow> (FuncNode \<Rightarrow> bool) \<Rightarrow> FuncNode \<Rightarrow> FuncNode list \<Rightarrow> bool"
where
  "revPath res en sk snk ws =
     (2 \<le> length ws \<and> ws ! 0 = snk \<and> en (last ws) \<and> last ws \<noteq> snk
      \<and> (\<forall>d. Suc d < length ws \<longrightarrow> ws ! Suc d \<in> Parent ` set (CallSites res (ws ! d)))
      \<and> (\<forall>d. 0 < d \<and> Suc d < length ws \<longrightarrow> \<not> sk (ws ! d)))"

lemma callPath_nth:
  "callPath res vs \<Longrightarrow> Suc i < length vs \<Longrightarrow> vs ! i \<in> Parent ` set (CallSites res (vs ! Suc i))"
proof (induction res vs arbitrary: i rule: callPath.induct)
  case (3 res x y zs)
  then show ?case by (cases i) auto
qed simp_all

lemma witnessPath_revPath:
  assumes "witnessPath res vuln snk vs"
  shows "revPath res (entriesOf res) (skipSymbolsOf vuln res) snk (rev vs)"
proof -
  from assms have len: "2 \<le> length vs" and ne: "vs \<noteq> []" and cp: "callPath res vs"
    and hd: "hd vs \<in> set (EntryFunctions res)" "hd vs \<noteq> snk" and lst: "last vs = snk"
    and sk: "\<forall>x \<in> set (butlast (tl vs)). \<not> skipSymbolsOf vuln res x"
    by (auto simp: witnessPath_def entryPath_def)
  have "rev vs ! 0 = snk" using ne lst by (simp add: rev_nth last_conv_nth)
  moreover have "last (rev vs) = hd vs" using ne by (simp add: last_rev)
  moreover have "rev vs ! Suc d \<in> Parent ` set (CallSites res (rev vs ! d))" if "Suc d < length vs" for d
  proof -
    from that have "Suc (length vs - Suc (Suc d)) < length vs" by arith
    from callPath_nth [OF cp this] that show ?thesis
      by (simp add: rev_nth Suc_diff_Suc)
  qed
  moreover have "\<not> skipSymbolsOf vuln res (rev vs ! d)" if "0 < d \<and> Suc d < length vs" for d
  proof -
    define i where "i = length vs - Suc d"
    from that have i: "0 < i" "Suc i < length vs" by (auto simp: i_def)
    then have "vs ! i \<in> set (butlast (tl vs))"
      by (cases vs) (auto simp: in_set_conv_nth nth_butlast intro!: exI [where x = "i - 1"])
    with sk that show ?thesis by (simp add: rev_nth i_def)
  qed
  ultimately show ?thesis using len hd by (simp add: revPath_def entriesOf_set)
qed

text \<open>
  The invariant of the loop while no candidate is found, for a witness path \<open>ws\<close> read
  from the sink: the levels of the queue ascend and differ by at most one
  (\<open>levelsOK\<close>); the function \<open>ws ! d\<close> is seen, or waits in the queue at a level of at
  most \<open>d + 1\<close>, or the front of the queue is still at a level of at most \<open>d\<close>
  (\<open>onPath\<close>); every caller of a seen function that is not skipped is seen or waits in
  the queue (\<open>closed\<close>); and no entry function other than the sink has been met
  (\<open>noEntry\<close>). Once a candidate is found, its depth is at most the length of \<open>ws\<close>.
\<close>

definition levelsOK :: "search \<Rightarrow> bool" where
  "levelsOK s =
     (sorted (map level (queue s))
      \<and> (\<forall>c \<in> set (queue s). level c \<le> Suc (level (hd (queue s)))))"

definition onPath :: "FuncNode list \<Rightarrow> search \<Rightarrow> bool" where
  "onPath ws s =
     (\<forall>d. Suc d < length ws \<longrightarrow>
        seen s (ws ! d)
        \<or> (\<exists>c \<in> set (queue s). cc_f c = ws ! d \<and> level c \<le> Suc d)
        \<or> (queue s \<noteq> [] \<and> level (hd (queue s)) \<le> d))"

definition closed :: "Result \<Rightarrow> (FuncNode \<Rightarrow> bool) \<Rightarrow> search \<Rightarrow> bool" where
  "closed res sk s =
     (\<forall>g p. seen s g \<longrightarrow> p \<in> Parent ` set (CallSites res g) \<longrightarrow> \<not> sk p
        \<longrightarrow> seen s p \<or> p \<in> cc_f ` set (queue s))"

definition noEntry :: "Result \<Rightarrow> (FuncNode \<Rightarrow> bool) \<Rightarrow> FuncNode \<Rightarrow> search \<Rightarrow> bool" where
  "noEntry res en snk s =
     ((\<forall>g p. seen s g \<longrightarrow> p \<in> Parent ` set (CallSites res g) \<longrightarrow> en p \<longrightarrow> seen s p)
      \<and> (\<forall>p. en p \<longrightarrow> seen s p \<or> p \<in> cc_f ` set (queue s) \<longrightarrow> p = snk))"

definition complete ::
  "Result \<Rightarrow> (FuncNode \<Rightarrow> bool) \<Rightarrow> (FuncNode \<Rightarrow> bool) \<Rightarrow> FuncNode \<Rightarrow> FuncNode list \<Rightarrow> search \<Rightarrow> bool"
where
  "complete res en sk snk ws s =
     (sound res en sk snk s
      \<and> (if candidates s \<noteq> [] then candDepth s \<le> length ws
          else levelsOK s \<and> onPath ws s \<and> closed res sk s \<and> noEntry res en snk s))"

lemma path_closed_seen:
  assumes rp: "revPath res en sk snk ws" and cl: "closed res sk s"
    and q: "queue s = []" and sn: "seen s snk"
  shows "Suc d < length ws \<Longrightarrow> seen s (ws ! d)"
proof (induction d)
  case 0
  with rp sn show ?case by (simp add: revPath_def)
next
  case (Suc d)
  then have "seen s (ws ! d)" by simp
  moreover from rp Suc.prems have "ws ! Suc d \<in> Parent ` set (CallSites res (ws ! d))"
    "\<not> sk (ws ! Suc d)" by (auto simp: revPath_def)
  ultimately show ?case using cl q unfolding closed_def by fastforce
qed

lemma sorted_const: "\<forall>x \<in> set xs. x = (a::nat) \<Longrightarrow> sorted xs"
  by (induction xs) auto

lemma complete_advance:
  assumes rp: "revPath res en sk snk ws"
    and q: "queue s = c0 # rest"
    and lv: "levelsOK s" and op: "onPath ws s" and cl: "closed res sk s" and ne: "noEntry res en snk s"
    and sn': "seen s' snk \<or> queue s' = [CallChain None snk None]"
    and seen': "seen s' = (seen s)(cc_f c0 := True)"
    and q': "queue s' = rest @ new"
    and new: "\<forall>c \<in> set new. level c = Suc (level c0)"
    and g1: "\<forall>p \<in> Parent ` set (CallSites res (cc_f c0)). \<not> sk p \<longrightarrow> seen s' p \<or> p \<in> cc_f ` set (queue s')"
    and g2: "\<forall>p \<in> Parent ` set (CallSites res (cc_f c0)). en p \<longrightarrow> seen s' p"
    and g3: "\<forall>c \<in> set new. \<not> en (cc_f c)"
  shows "levelsOK s' \<and> onPath ws s' \<and> closed res sk s' \<and> noEntry res en snk s'"
proof -
  define L0 where "L0 = level c0"
  have L0: "0 < L0" by (simp add: L0_def level_pos)
  from lv q have srt: "sorted (map level rest)" and ge: "\<forall>c \<in> set rest. L0 \<le> level c"
    and le: "\<forall>c \<in> set rest. level c \<le> Suc L0"
    by (auto simp: levelsOK_def L0_def)
  from new have new': "\<forall>c \<in> set new. level c = Suc L0" by (simp add: L0_def)
  have all_le: "\<forall>c \<in> set (queue s'). level c \<le> Suc L0" using le new' q' by auto
  have all_ge: "\<forall>c \<in> set (queue s'). L0 \<le> level c" using ge new' q' by auto
  have mono: "seen s x \<Longrightarrow> seen s' x" for x by (simp add: seen')
  have seenD: "seen s' x \<Longrightarrow> x = cc_f c0 \<or> seen s x" for x by (simp add: seen' split: if_splits)
  have srt': "sorted (map level (queue s'))"
  proof -
    have "sorted (map level new)" using new' by (intro sorted_const [where a = "Suc L0"]) auto
    with srt le new' show ?thesis by (auto simp: q' sorted_append)
  qed
  have hd_le: "c \<in> set (queue s') \<Longrightarrow> level (hd (queue s')) \<le> level c" for c
    using srt' by (cases "queue s'") auto
  have lv': "levelsOK s'"
  proof -
    have "level c \<le> Suc (level (hd (queue s')))" if "c \<in> set (queue s')" for c
    proof -
      from that have "queue s' \<noteq> []" by auto
      then have "hd (queue s') \<in> set (queue s')" by simp
      with all_ge have "L0 \<le> level (hd (queue s'))" by blast
      with all_le that show ?thesis by fastforce
    qed
    with srt' show ?thesis by (simp add: levelsOK_def)
  qed
  have cl': "closed res sk s'"
    unfolding closed_def
  proof (intro allI impI)
    fix g p
    assume g: "seen s' g" and p: "p \<in> Parent ` set (CallSites res g)" and nsk: "\<not> sk p"
    show "seen s' p \<or> p \<in> cc_f ` set (queue s')"
    proof (cases "g = cc_f c0")
      case True
      with g1 p nsk show ?thesis by blast
    next
      case False
      with g have "seen s g" by (auto dest: seenD)
      with cl p nsk have "seen s p \<or> p \<in> cc_f ` set (queue s)" unfolding closed_def by blast
      then show ?thesis using q q' mono by (auto simp: seen')
    qed
  qed
  have ne': "noEntry res en snk s'"
    unfolding noEntry_def
  proof (intro conjI allI impI)
    fix g p
    assume g: "seen s' g" and p: "p \<in> Parent ` set (CallSites res g)" and en: "en p"
    show "seen s' p"
    proof (cases "g = cc_f c0")
      case True
      with g2 p en show ?thesis by blast
    next
      case False
      with g have "seen s g" by (auto dest: seenD)
      with ne p en have "seen s p" unfolding noEntry_def by blast
      then show ?thesis by (rule mono)
    qed
  next
    fix p
    assume en: "en p" and p: "seen s' p \<or> p \<in> cc_f ` set (queue s')"
    from p g3 en have "seen s p \<or> p \<in> cc_f ` set (queue s)"
      using q q' by (auto dest: seenD)
    with ne en show "p = snk" unfolding noEntry_def by blast
  qed
  have op': "onPath ws s'"
    unfolding onPath_def
  proof (intro allI impI)
    fix d assume d: "Suc d < length ws"
    show "seen s' (ws ! d) \<or> (\<exists>c \<in> set (queue s'). cc_f c = ws ! d \<and> level c \<le> Suc d)
        \<or> (queue s' \<noteq> [] \<and> level (hd (queue s')) \<le> d)"
    proof (cases "queue s' = []")
      case True
      with sn' have "seen s' snk" by auto
      from path_closed_seen [OF rp cl' True this d] show ?thesis by simp
    next
      case qne: False
      from op d have "seen s (ws ! d) \<or> (\<exists>c \<in> set (queue s). cc_f c = ws ! d \<and> level c \<le> Suc d)
          \<or> (queue s \<noteq> [] \<and> level (hd (queue s)) \<le> d)"
        unfolding onPath_def by blast
      then consider (a) "seen s (ws ! d)"
        | (b) c where "c \<in> set (queue s)" "cc_f c = ws ! d" "level c \<le> Suc d"
        | (c) "L0 \<le> d"
        using q by (auto simp: L0_def)
      then show ?thesis
      proof cases
        case a
        then show ?thesis by (simp add: mono)
      next
        case b
        then show ?thesis using q q' by (auto simp: seen')
      next
        case c
        show ?thesis
        proof (cases "level (hd (queue s')) \<le> d")
          case True
          with qne show ?thesis by simp
        next
          case False
          from qne have "hd (queue s') \<in> set (queue s')" by simp
          with all_le False c have dL: "d = L0" and hdl: "level (hd (queue s')) = Suc d"
            by fastforce+
          have alld: "level x = Suc d" if "x \<in> set (queue s')" for x
            using hd_le [OF that] all_le that hdl dL by fastforce
          from L0 dL obtain d' where d': "d = Suc d'" by (cases d) auto
          with d have "Suc d' < length ws" by simp
          with op have "seen s (ws ! d') \<or> (\<exists>x \<in> set (queue s). cc_f x = ws ! d' \<and> level x \<le> Suc d')
              \<or> (queue s \<noteq> [] \<and> level (hd (queue s)) \<le> d')"
            unfolding onPath_def by blast
          then have "seen s' (ws ! d')"
          proof (elim disjE bexE conjE)
            assume "seen s (ws ! d')"
            then show ?thesis by (rule mono)
          next
            fix x assume x: "x \<in> set (queue s)" "cc_f x = ws ! d'" "level x \<le> Suc d'"
            show ?thesis
            proof (cases "x = c0")
              case True
              with x show ?thesis by (simp add: seen')
            next
              case False
              with x q q' have "x \<in> set (queue s')" by auto
              from alld [OF this] x d' show ?thesis by simp
            qed
          next
            assume "level (hd (queue s)) \<le> d'"
            with q dL d' show ?thesis by (simp add: L0_def)
          qed
          moreover from rp d d' have "ws ! d \<in> Parent ` set (CallSites res (ws ! d'))" "\<not> sk (ws ! d)"
            by (auto simp: revPath_def)
          ultimately have "seen s' (ws ! d) \<or> ws ! d \<in> cc_f ` set (queue s')"
            using cl' unfolding closed_def by blast
          then show ?thesis using alld by fastforce
        qed
      qed
    qed
  qed
  from lv' op' cl' ne' show ?thesis by simp
qed

lemma step_keeps_candidates:
  assumes "candidates s \<noteq> []"
  shows "candidates (step res rk en sk s) \<noteq> [] \<and> candDepth (step res rk en sk s) = candDepth s"
proof (cases "queue s")
  case Nil
  with assms show ?thesis by (simp add: step_def)
next
  case (Cons c rest)
  show ?thesis
  proof (cases "seen s (cc_f c)")
    case True
    with assms Cons show ?thesis by (simp add: step_def)
  next
    case False
    define s1 where "s1 = s\<lparr>queue := rest, seen := (seen s)(cc_f c := True)\<rparr>"
    have "candidates s1 \<noteq> []" "candDepth s1 = candDepth s" using assms by (simp_all add: s1_def)
    with foldl_expandSite_keeps_candidates [of s1 en sk c]
    show ?thesis using False Cons by (simp add: step_def Let_def s1_def)
  qed
qed

lemma complete_step:
  assumes rp: "revPath res en sk snk ws" and inv: "complete res en sk snk ws s"
  shows "complete res en sk snk ws (step res rk en sk s)"
proof -
  from inv have snd: "sound res en sk snk s" by (simp add: complete_def)
  then have snd': "sound res en sk snk (step res rk en sk s)" by (rule sound_step)
  show ?thesis
  proof (cases "candidates s \<noteq> []")
    case True
    with inv have "candDepth s \<le> length ws" by (simp add: complete_def)
    with step_keeps_candidates [OF True, of res rk en sk] snd' show ?thesis
      by (simp add: complete_def)
  next
    case nocand: False
    with inv have lv: "levelsOK s" and op: "onPath ws s" and cl: "closed res sk s"
      and ne: "noEntry res en snk s"
      by (simp_all add: complete_def)
    show ?thesis
    proof (cases "queue s")
      case Nil
      with inv show ?thesis by (simp add: step_def)
    next
      case (Cons c0 rest)
      from snd' have sn': "seen (step res rk en sk s) snk
          \<or> queue (step res rk en sk s) = [CallChain None snk None]"
        by (simp add: sound_def)
      show ?thesis
      proof (cases "seen s (cc_f c0)")
        case True
        then have st: "step res rk en sk s = s\<lparr>queue := rest\<rparr>" by (simp add: step_def Cons)
        have sup: "(seen s)(cc_f c0 := True) = seen s" using True by (auto simp: fun_eq_iff)
        have "levelsOK (step res rk en sk s) \<and> onPath ws (step res rk en sk s)
            \<and> closed res sk (step res rk en sk s) \<and> noEntry res en snk (step res rk en sk s)"
        proof (rule complete_advance [OF rp Cons lv op cl ne sn', where new = "[]"])
          show "seen (step res rk en sk s) = (seen s)(cc_f c0 := True)" by (simp add: st sup)
          show "queue (step res rk en sk s) = rest @ []" by (simp add: st)
          show "\<forall>p \<in> Parent ` set (CallSites res (cc_f c0)). \<not> sk p \<longrightarrow>
              seen (step res rk en sk s) p \<or> p \<in> cc_f ` set (queue (step res rk en sk s))"
          proof (intro ballI impI)
            fix p assume "p \<in> Parent ` set (CallSites res (cc_f c0))" "\<not> sk p"
            with cl True have "seen s p \<or> p \<in> cc_f ` set (queue s)" unfolding closed_def by blast
            with True show "seen (step res rk en sk s) p \<or> p \<in> cc_f ` set (queue (step res rk en sk s))"
              by (auto simp: st Cons)
          qed
          show "\<forall>p \<in> Parent ` set (CallSites res (cc_f c0)). en p \<longrightarrow> seen (step res rk en sk s) p"
            using ne True unfolding noEntry_def by (auto simp: st)
        qed simp_all
        with snd' nocand show ?thesis by (simp add: complete_def st)
      next
        case unseen: False
        define s1 where "s1 = s\<lparr>queue := rest, seen := (seen s)(cc_f c0 := True)\<rparr>"
        define css where "css = callsites (rk (cc_f c0)) (CallSites res (cc_f c0)) (seen s1)"
        have st: "step res rk en sk s = foldl (expandSite en sk c0) s1 css"
          using unseen by (simp add: step_def Cons s1_def css_def Let_def)
        have par: "Parent ` set css
            = {p. \<exists>cs \<in> set (CallSites res (cc_f c0)). p = Parent cs \<and> \<not> seen s1 p}"
          unfolding css_def by (rule callsites_parents)
        show ?thesis
        proof (cases "\<exists>cs \<in> set css. en (Parent cs)")
          case True
          have c1: "candidates s1 = []" using nocand by (simp add: s1_def)
          from foldl_expandSite_first_candidate [OF c1 True, of sk c0]
          have cand: "candidates (step res rk en sk s) \<noteq> []"
            and depth: "candDepth (step res rk en sk s) = Suc (level c0)"
            by (simp_all add: st)
          have "level c0 < length ws"
          proof (rule ccontr)
            assume "\<not> level c0 < length ws"
            then have big: "length ws \<le> level c0" by simp
            from rp have len: "2 \<le> length ws" by (simp add: revPath_def)
            define d where "d = length ws - 2"
            from len have d: "Suc d < length ws" and d2: "Suc d = length ws - 1"
              by (simp_all add: d_def)
            from lv Cons have hd_le: "\<forall>c \<in> set (queue s). level c0 \<le> level c"
              by (auto simp: levelsOK_def)
            from op d have "seen s (ws ! d)
                \<or> (\<exists>c \<in> set (queue s). cc_f c = ws ! d \<and> level c \<le> Suc d)
                \<or> (queue s \<noteq> [] \<and> level (hd (queue s)) \<le> d)"
              unfolding onPath_def by blast
            with hd_le big d Cons have "seen s (ws ! d)" by fastforce
            moreover from rp d have "ws ! Suc d \<in> Parent ` set (CallSites res (ws ! d))"
              by (simp add: revPath_def)
            moreover from len d2 have lst: "ws ! Suc d = last ws"
              by (cases ws) (simp_all add: last_conv_nth)
            moreover from rp have "en (last ws)" "last ws \<noteq> snk" by (simp_all add: revPath_def)
            ultimately show False using ne unfolding noEntry_def by metis
          qed
          with cand depth snd' show ?thesis by (simp add: complete_def)
        next
          case False
          then have noen: "\<forall>cs \<in> set css. \<not> en (Parent cs)" by blast
          define new where "new = map (pushed c0) (filter (\<lambda>cs. \<not> sk (Parent cs)) css)"
          have st': "step res rk en sk s = s1\<lparr>queue := rest @ new\<rparr>"
            unfolding st foldl_expandSite_no_entry [OF noen] by (simp add: s1_def new_def)
          have "levelsOK (step res rk en sk s) \<and> onPath ws (step res rk en sk s)
              \<and> closed res sk (step res rk en sk s) \<and> noEntry res en snk (step res rk en sk s)"
          proof (rule complete_advance [OF rp Cons lv op cl ne sn', where new = new])
            show "seen (step res rk en sk s) = (seen s)(cc_f c0 := True)" by (simp add: st' s1_def)
            show "queue (step res rk en sk s) = rest @ new" by (simp add: st')
            show "\<forall>c \<in> set new. level c = Suc (level c0)" by (auto simp: new_def)
            show "\<forall>c \<in> set new. \<not> en (cc_f c)" using noen by (auto simp: new_def)
            show "\<forall>p \<in> Parent ` set (CallSites res (cc_f c0)). \<not> sk p \<longrightarrow>
                seen (step res rk en sk s) p \<or> p \<in> cc_f ` set (queue (step res rk en sk s))"
            proof (intro ballI impI)
              fix p assume p: "p \<in> Parent ` set (CallSites res (cc_f c0))" and nsk: "\<not> sk p"
              show "seen (step res rk en sk s) p \<or> p \<in> cc_f ` set (queue (step res rk en sk s))"
              proof (cases "seen s1 p")
                case True
                then show ?thesis by (simp add: st')
              next
                case False
                with p par have "p \<in> Parent ` set css" by auto
                then obtain cs where "cs \<in> set css" "p = Parent cs" by auto
                with nsk have "pushed c0 cs \<in> set new" by (simp add: new_def)
                with \<open>p = Parent cs\<close> have "p \<in> cc_f ` set new" by force
                then show ?thesis by (auto simp: st')
              qed
            qed
            show "\<forall>p \<in> Parent ` set (CallSites res (cc_f c0)). en p \<longrightarrow> seen (step res rk en sk s) p"
            proof (intro ballI impI)
              fix p assume p: "p \<in> Parent ` set (CallSites res (cc_f c0))" and en: "en p"
              show "seen (step res rk en sk s) p"
              proof (rule ccontr)
                assume "\<not> seen (step res rk en sk s) p"
                then have "\<not> seen s1 p" by (simp add: st')
                with p par have "p \<in> Parent ` set css" by auto
                with noen en show False by auto
              qed
            qed
          qed
          moreover have "candidates (step res rk en sk s) = []" using nocand by (simp add: st' s1_def)
          ultimately show ?thesis using snd' by (simp add: complete_def)
        qed
      qed
    qed
  qed
qed

lemma complete_init:
  assumes "revPath res en sk snk ws"
  shows "complete res en sk snk ws (initSearch snk)"
proof -
  have "onPath ws (initSearch snk)"
    unfolding onPath_def
  proof (intro allI impI)
    fix d assume "Suc d < length ws"
    show "seen (initSearch snk) (ws ! d)
        \<or> (\<exists>c \<in> set (queue (initSearch snk)). cc_f c = ws ! d \<and> level c \<le> Suc d)
        \<or> (queue (initSearch snk) \<noteq> [] \<and> level (hd (queue (initSearch snk))) \<le> d)"
    proof (cases d)
      case 0
      with assms show ?thesis by (simp add: initSearch_def revPath_def level_def)
    next
      case (Suc d')
      then show ?thesis by (simp add: initSearch_def level_def)
    qed
  qed
  then show ?thesis
    by (simp add: complete_def sound_init)
      (simp add: initSearch_def levelsOK_def closed_def noEntry_def)
qed

lemma complete_bfs:
  assumes "revPath res en sk snk ws"
  shows "complete res en sk snk ws (bfs res rk en sk (initSearch snk))
       \<and> queue (bfs res rk en sk (initSearch snk)) = []"
  using bfs_invariant [where P = "complete res en sk snk ws", OF complete_init [OF assms]
      complete_step [OF assms]]
  by blast

lemma complete_final:
  assumes rp: "revPath res en sk snk ws" and inv: "complete res en sk snk ws s" and q: "queue s = []"
  shows "candidates s \<noteq> [] \<and> candDepth s \<le> length ws"
proof (cases "candidates s = []")
  case False
  with inv show ?thesis by (simp add: complete_def)
next
  case True
  with inv have op: "onPath ws s" and ne: "noEntry res en snk s"
    by (simp_all add: complete_def)
  from rp have len: "2 \<le> length ws" by (simp add: revPath_def)
  define d where "d = length ws - 2"
  from len have d: "Suc d < length ws" and d2: "Suc d = length ws - 1" by (simp_all add: d_def)
  from op d q have "seen s (ws ! d)" unfolding onPath_def by fastforce
  moreover from rp d have "ws ! Suc d \<in> Parent ` set (CallSites res (ws ! d))"
    by (simp add: revPath_def)
  moreover from len d2 have "ws ! Suc d = last ws" by (cases ws) (simp_all add: last_conv_nth)
  moreover from rp have "en (last ws)" "last ws \<noteq> snk" by (simp_all add: revPath_def)
  ultimately have False using ne unfolding noEntry_def by metis
  then show ?thesis ..
qed

text \<open>The sink is an entry function itself and is called by the entry function \<open>entry\<close>.\<close>

definition csES :: CallSite where
  "csES = \<lparr>Parent = fEntry, Name = ''sink'', RecvType = '''', Pos = mkPos 12, Resolved = True\<rparr>"

definition rSinkEntry :: Result where
  "rSinkEntry = \<lparr>EntryFunctions = [fEntry, fSink], Vulns = [vChain],
                  CallGraph = [(fSink, [csES])]\<rparr>"

definition stSinkEntry :: CallStack where
  "stSinkEntry = [\<lparr>Function = fEntry, Call = Some csES\<rparr>, \<lparr>Function = fSink, Call = None\<rparr>]"

text \<open>The chain with a direct call of \<open>a\<close> into the sink.\<close>

definition rShortcut :: Result where
  "rShortcut = \<lparr>EntryFunctions = [fEntry], Vulns = [vChain],
                 CallGraph = [(fA, [csEA]), (fB, [csAB]), (fSink, [csBS, csAS])]\<rparr>"

lemma callStack_rShortcut: "callStack insertionOrder vChain rShortcut = Some stSiblings"
  by code_simp

lemma rShortcut_paths:
  "witnessPath rShortcut vChain fSink [fEntry, fA, fB, fSink]
   \<and> witnessPath rShortcut vChain fSink (map Function stSiblings)
   \<and> length stSiblings = 3"
  by code_simp

text \<open>
  Claim C1, as stated: the frame count of the stack returned equals the shortest distance
  in frames from any entry function to the sink. It does not when the sink is an entry
  function itself: the path of the sink alone has one frame, but the search never
  compares the sink with the entry functions and returns the stack of two frames from
  the entry function that calls it.
\<close>

theorem C1_counterexample:
  "CallSink vChain = Some fSink
   \<and> entryPath rSinkEntry vChain fSink [fSink]
   \<and> callStack insertionOrder vChain rSinkEntry = Some stSinkEntry
   \<and> length [fSink] < length stSinkEntry"
  by code_simp

text \<open>
  Claim C1, amended: when the call sink of the vulnerability is reached by a path of at
  least one call from an entry function other than the sink, on which no function
  strictly inside is a skipped symbol (a call sink of another vulnerability with the
  same OSV entry and import sink), then \<open>callStack\<close> returns a stack; the functions of
  its frames form such a path, and no such path has fewer functions than the stack has
  frames. This holds for every map order.
\<close>

theorem C1_shortest_witness:
  assumes snk: "CallSink vuln = Some snk" and vs: "witnessPath res vuln snk vs"
  shows "\<exists>st. callStack rank vuln res = Some st
            \<and> witnessPath res vuln snk (map Function st)
            \<and> (\<forall>us. witnessPath res vuln snk us \<longrightarrow> length st \<le> length us)"
proof -
  define en where "en = entriesOf res"
  define sk where "sk = skipSymbolsOf vuln res"
  define s where "s = bfs res rank en sk (initSearch snk)"
  have bound: "candidates s \<noteq> [] \<and> candDepth s \<le> length us" if "witnessPath res vuln snk us" for us
  proof -
    from that have rp: "revPath res en sk snk (rev us)"
      unfolding en_def sk_def by (rule witnessPath_revPath)
    from complete_bfs [OF rp, of rank] complete_final [OF rp, of s] show ?thesis
      by (simp add: s_def)
  qed
  from bound [OF vs] have "candidates s \<noteq> []" by simp
  with callStack_None_iff [OF snk, of rank res] obtain st where st: "callStack rank vuln res = Some st"
    by (cases "callStack rank vuln res") (auto simp: s_def en_def sk_def)
  then obtain snk' where snk': "CallSink vuln = Some snk'"
    and mem: "st \<in> set (candidates (bfs res rank (entriesOf res) (skipSymbolsOf vuln res) (initSearch snk')))"
    by (auto elim: callStack_SomeD)
  from snk snk' have [simp]: "snk' = snk" by simp
  have snd: "sound res en sk snk s" unfolding s_def by (rule sound_bfs)
  with mem have ok: "candOK res en sk snk st" and len: "length st = candDepth s"
    by (simp_all add: sound_def s_def en_def sk_def)
  from ok have "witnessPath res vuln snk (map Function st)"
    unfolding en_def sk_def by (rule candOK_witnessPath)
  moreover have "length st \<le> length us" if "witnessPath res vuln snk us" for us
    using bound [OF that] len by simp
  ultimately show ?thesis using st by blast
qed

theorem C1_shortest_witness_inst:
  "CallSink vChain = Some fSink
   \<and> witnessPath rShortcut vChain fSink [fEntry, fA, fB, fSink]
   \<and> callStack insertionOrder vChain rShortcut = Some stSiblings
   \<and> witnessPath rShortcut vChain fSink (map Function stSiblings)
   \<and> length stSiblings \<le> length [fEntry, fA, fB, fSink]
   \<and> length stSiblings = 3"
proof -
  have s: "CallSink vChain = Some fSink" by (simp add: vChain_def)
  from rShortcut_paths have p: "witnessPath rShortcut vChain fSink [fEntry, fA, fB, fSink]" by simp
  from C1_shortest_witness [OF s p, of insertionOrder] callStack_rShortcut p
  have "length stSiblings \<le> length [fEntry, fA, fB, fSink]" by auto
  with s rShortcut_paths callStack_rShortcut show ?thesis by simp
qed

end
